theory Spec2Isabelle
  imports Main "HOL-Library.AList"
begin

section \<open>The concurrent source: data model\<close>

text \<open>
  The model follows \<^verbatim>\<open>ConcurrentSource.read\<close> of
  \<^verbatim>\<open>airbyte_cdk/sources/concurrent_source/concurrent_source.py\<close>.
  The Driver is the single thread that runs \<^verbatim>\<open>read\<close>; the worker tasks are
  seen only through what they put on the queue. A run is therefore determined by the
  source, the catalog and the sequence of items that \<^verbatim>\<open>queue.get\<close> hands out.
  Everything the Driver does that a caller or a collaborator can observe (a yielded
  message, a log line, a task submission, a call of the timer, of a cursor or of the
  thread pool) is recorded, in program order, in one list of events.
\<close>

datatype airbyte_stream_status = STARTED | RUNNING | COMPLETE | INCOMPLETE

text \<open>
  What \<^verbatim>\<open>read\<close> uses of an \<^verbatim>\<open>AbstractStream\<close>: its name, the namespace of
  \<^verbatim>\<open>as_airbyte_stream()\<close>, and the result of \<^verbatim>\<open>check_availability()\<close>. The
  partition generator of a stream is identified by the stream name that its
  \<^verbatim>\<open>stream_name()\<close> reports, taken to be the name of the stream that owns it.
\<close>

record abstract_stream =
  name :: string
  namespace :: "string option"
  is_available :: bool
  availability_message :: string

text \<open>An entry of \<^verbatim>\<open>self.streams(config)\<close>: a \<^verbatim>\<open>StreamFacade\<close> or anything else.\<close>

datatype stream = StreamFacade abstract_stream | Other_stream string

datatype py_exception =
    KeyError string
  | IndexError
  | ValueError string
  | Queue_Empty
  | Exception string

datatype partition = Partition (partition_stream_name: string) (to_slice: string)

datatype record_item = Record (record_stream_name: string) (record_data: string)

text \<open>
  The items of the queue, in the order in which the loop of \<^verbatim>\<open>read\<close> tests for them
  with \<^verbatim>\<open>isinstance\<close>; whatever is none of the first four is taken for a record. All
  of them are objects that Python counts as true, so the condition of the
  \<^verbatim>\<open>while\<close> never ends the loop by itself.
\<close>

datatype queue_item =
    Exception_item py_exception
  | PartitionGenerationCompletedSentinel string
  | Partition_item partition
  | PartitionCompleteSentinel partition
  | Record_item record_item

datatype airbyte_message =
    Stream_status string "string option" airbyte_stream_status
  | Record_message string string
  | Slice_log_message string

datatype log_line =
    Starting_syncing string
  | Skipped_syncing_stream string string
  | Marking_stream_as_STARTED string
  | Syncing_stream string
  | Marking_stream_as_RUNNING string
  | Read_records_from_stream nat string
  | Marking_stream_as_STOPPED string
  | Finished_syncing string
  | Timer_report

datatype event =
    Yield airbyte_message
  | Log_info log_line
  | Log_warning log_line
  | Submit_generate_partitions string
  | Submit_process_partition partition
  | Threadpool_shutdown
  | Timer_start_event string
  | Timer_finish_event string
  | Cursor_observe string record_item
  | Cursor_close_partition string partition

text \<open>
  The object \<^verbatim>\<open>self\<close>: the constructor's \<^verbatim>\<open>max_workers\<close> and
  \<^verbatim>\<open>timeout_in_seconds\<close> (\<^verbatim>\<open>None\<close> makes \<^verbatim>\<open>queue.get\<close> wait for ever),
  the policy for a configured stream that the source does not have, the streams of the
  source, and whether the slice logger wants slice messages.
\<close>

record concurrent_source =
  source_name :: string
  max_workers :: nat
  timeout_seconds :: "nat option"
  raise_exception_on_missing_stream :: bool
  streams :: "stream list"
  should_log_slice_message :: bool

text \<open>
  The local variables of \<^verbatim>\<open>read\<close> that the loop changes, and the buffer of the
  message repository. Dictionaries are association lists in insertion order, read with
  \<^const>\<open>map_of\<close> and written with \<^const>\<open>AList.update\<close>. The set
  \<^verbatim>\<open>streams_in_progress\<close> is a list without repetition; Python does not fix the
  order in which a set is iterated, and no theorem below depends on it.

  The buffer of the message repository is followed for one run of \<^verbatim>\<open>read\<close> only:
  it starts empty and receives what the Driver itself emits into it, the slice messages
  of \<^verbatim>\<open>_handle_partition\<close>. In the code the repository is an object handed to
  the constructor (by default one instance, shared by every source), streams and worker
  tasks may emit into it as well, and \<^verbatim>\<open>read\<close> does not drain it when it ends;
  messages that reach the buffer in those ways are not part of this model.
\<close>

record driver_state =
  partition_generator_running :: "string list"
  partition_generators :: "string list"
  streams_to_partitions_to_done :: "(string \<times> (partition \<times> bool) list) list"
  record_counter :: "(string \<times> nat) list"
  streams_in_progress :: "string list"
  total_records_counter :: nat
  message_repository :: "airbyte_message list"

datatype step_result = Continue driver_state | Break | Raise py_exception

datatype outcome = Returned | Raised py_exception | Blocked

section \<open>The operations of \<^verbatim>\<open>ConcurrentSource\<close>\<close>

definition max_number_of_partition_generator_in_progress :: nat where
  "max_number_of_partition_generator_in_progress = 1"

fun streams_as_abstract_streams :: "stream list \<Rightarrow> py_exception + abstract_stream list" where
  "streams_as_abstract_streams [] = Inr []"
| "streams_as_abstract_streams (StreamFacade s # ss) =
     (case streams_as_abstract_streams ss of
        Inl e \<Rightarrow> Inl e
      | Inr rest \<Rightarrow> Inr (s # rest))"
| "streams_as_abstract_streams (Other_stream d # ss) = Inl (ValueError d)"

text \<open>The dictionary comprehension \<^verbatim>\<open>{s.name: s for s in ...}\<close>: a later stream of
  the same name replaces an earlier one.\<close>

definition stream_instances_of :: "abstract_stream list \<Rightarrow> (string \<times> abstract_stream) list" where
  "stream_instances_of ss = fold (\<lambda>s m. AList.update (name s) s m) ss []"

text \<open>The loop over \<^verbatim>\<open>catalog.streams\<close>; the catalog is the list of the configured
  stream names.\<close>

fun select_streams ::
  "bool \<Rightarrow> (string \<times> abstract_stream) list \<Rightarrow> string list
    \<Rightarrow> event list \<times> (py_exception + abstract_stream list)" where
  "select_streams raise_missing instances [] = ([], Inr [])"
| "select_streams raise_missing instances (c # cs) =
     (case map_of instances c of
        None \<Rightarrow>
          if \<not> raise_missing then select_streams raise_missing instances cs
          else ([], Inl (KeyError c))
      | Some s \<Rightarrow>
          if \<not> is_available s then
            (case select_streams raise_missing instances cs of
               (evs, r) \<Rightarrow>
                 (Log_warning (Skipped_syncing_stream (name s) (availability_message s)) # evs, r))
          else
            (case select_streams raise_missing instances cs of
               (evs, Inl e) \<Rightarrow> (Timer_start_event c # evs, Inl e)
             | (evs, Inr rest) \<Rightarrow> (Timer_start_event c # evs, Inr (s # rest))))"

definition initial_state :: "abstract_stream list \<Rightarrow> driver_state" where
  "initial_state to_read =
     \<lparr> partition_generator_running = [],
       partition_generators = map name to_read,
       streams_to_partitions_to_done = fold (\<lambda>s m. AList.update (name s) [] m) to_read [],
       record_counter = fold (\<lambda>s m. AList.update (name s) 0 m) to_read [],
       streams_in_progress = [],
       total_records_counter = 0,
       message_repository = [] \<rparr>"

text \<open>Submitting the next generator: the body shared by the start-up loop and by
  \<^verbatim>\<open>_handle_partition_generation_completed\<close>.\<close>

definition start_generator :: "string \<Rightarrow> string list \<Rightarrow> driver_state \<Rightarrow> driver_state" where
  "start_generator g gs st =
     st\<lparr> partition_generators := gs,
         streams_in_progress := List.insert g (streams_in_progress st),
         partition_generator_running := partition_generator_running st @ [g] \<rparr>"

definition submit_generator_events :: "string \<Rightarrow> event list" where
  "submit_generator_events g =
     [Submit_generate_partitions g,
      Log_info (Marking_stream_as_STARTED g),
      Log_info (Syncing_stream g)]"

function start_generators :: "driver_state \<Rightarrow> event list \<times> (py_exception + driver_state)" where
  "start_generators st =
     (if length (partition_generator_running st) < max_number_of_partition_generator_in_progress
      then
        (case partition_generators st of
           [] \<Rightarrow> ([], Inl IndexError)
         | g # gs \<Rightarrow>
             (case start_generators (start_generator g gs st) of
                (evs, r) \<Rightarrow>
                  (submit_generator_events g @ Yield (Stream_status g None STARTED) # evs, r)))
      else ([], Inr st))"
  by pat_completeness auto
termination
  by (relation "measure (\<lambda>st. max_number_of_partition_generator_in_progress
                                - length (partition_generator_running st))")
     (auto simp: start_generator_def)

definition handle_partition ::
  "bool \<Rightarrow> driver_state \<Rightarrow> partition \<Rightarrow> event list \<times> (py_exception + driver_state)" where
  "handle_partition log_slices st p =
     (let stream_name = partition_stream_name p in
      case map_of (streams_to_partitions_to_done st) stream_name of
        None \<Rightarrow> ([], Inl (KeyError stream_name))
      | Some d \<Rightarrow>
          let st1 = st\<lparr> streams_to_partitions_to_done :=
                          AList.update stream_name (AList.update p False d)
                            (streams_to_partitions_to_done st) \<rparr>;
              st2 = (if log_slices
                     then st1\<lparr> message_repository :=
                                 message_repository st1 @ [Slice_log_message (to_slice p)] \<rparr>
                     else st1)
          in ([Submit_process_partition p], Inr st2))"

definition handle_partition_generation_completed ::
  "driver_state \<Rightarrow> string
    \<Rightarrow> event list \<times> (py_exception + airbyte_message option \<times> driver_state)" where
  "handle_partition_generation_completed st sentinel_stream_name =
     (if sentinel_stream_name \<notin> set (partition_generator_running st)
      then ([], Inl (ValueError sentinel_stream_name))
      else
        let st1 = st\<lparr> partition_generator_running :=
                        remove1 sentinel_stream_name (partition_generator_running st) \<rparr>
        in case partition_generators st1 of
             g # gs \<Rightarrow>
               (submit_generator_events g,
                Inr (Some (Stream_status g None STARTED), start_generator g gs st1))
           | [] \<Rightarrow> ([], Inr (None, st1)))"

definition update_timer :: "abstract_stream \<Rightarrow> event list" where
  "update_timer s = [Timer_finish_event (name s), Log_info (Finished_syncing (name s))]"

definition handle_partition_completed ::
  "(string \<times> abstract_stream) list \<Rightarrow> driver_state \<Rightarrow> partition
    \<Rightarrow> event list \<times> (py_exception + airbyte_message option \<times> driver_state)" where
  "handle_partition_completed instances st p =
     (let stream_name = partition_stream_name p in
      case map_of (streams_to_partitions_to_done st) stream_name of
        None \<Rightarrow> ([], Inl (KeyError stream_name))
      | Some d \<Rightarrow>
          let d' = AList.update p True d;
              st1 = st\<lparr> streams_to_partitions_to_done :=
                          AList.update stream_name d' (streams_to_partitions_to_done st) \<rparr>
          in case map_of instances stream_name of
               None \<Rightarrow> ([], Inl (KeyError stream_name))
             | Some s \<Rightarrow>
                 let closed = [Cursor_close_partition stream_name p] in
                 if list_all snd d' \<and> stream_name \<notin> set (partition_generator_running st1)
                 then
                   if stream_name \<notin> set (streams_in_progress st1)
                   then (closed, Inl (KeyError stream_name))
                   else
                     let st2 = st1\<lparr> streams_in_progress :=
                                       removeAll stream_name (streams_in_progress st1) \<rparr>
                     in case map_of (record_counter st2) stream_name of
                          None \<Rightarrow> (closed, Inl (KeyError stream_name))
                        | Some n \<Rightarrow>
                            (closed
                               @ [Log_info (Read_records_from_stream n stream_name),
                                  Log_info (Marking_stream_as_STOPPED stream_name)]
                               @ update_timer s,
                             Inr (Some (Stream_status (name s) (namespace s) COMPLETE), st2))
                 else (closed, Inr (None, st1)))"

fun stop_streams_loop ::
  "(string \<times> abstract_stream) list \<Rightarrow> string list \<Rightarrow> event list \<times> py_exception option" where
  "stop_streams_loop instances [] = ([], None)"
| "stop_streams_loop instances (stream_name # rest) =
     (case map_of instances stream_name of
        None \<Rightarrow> ([], Some (KeyError stream_name))
      | Some s \<Rightarrow>
          (case stop_streams_loop instances rest of
             (evs, r) \<Rightarrow>
               (Log_info (Marking_stream_as_STOPPED (name s)) # update_timer s
                  @ Yield (Stream_status (name s) (namespace s) INCOMPLETE) # evs, r)))"

definition stop_streams ::
  "(string \<times> abstract_stream) list \<Rightarrow> driver_state \<Rightarrow> event list \<times> py_exception option" where
  "stop_streams instances st =
     (case stop_streams_loop instances (streams_in_progress st) of
        (evs, r) \<Rightarrow> (Threadpool_shutdown # evs, r))"

text \<open>
  Modelled from the spec: \<^verbatim>\<open>stream_data_to_airbyte_message\<close> is not among the
  sources; the spec describes it as a pure conversion of the stream name and the payload
  into an output message, here a message of type RECORD.
\<close>

definition stream_data_to_airbyte_message :: "string \<Rightarrow> string \<Rightarrow> airbyte_message" where
  "stream_data_to_airbyte_message stream_name data = Record_message stream_name data"

fun is_record_message :: "airbyte_message \<Rightarrow> bool" where
  "is_record_message (Record_message _ _) = True"
| "is_record_message _ = False"

definition handle_record ::
  "(string \<times> abstract_stream) list \<Rightarrow> driver_state \<Rightarrow> record_item
    \<Rightarrow> event list \<times> (py_exception + driver_state)" where
  "handle_record instances st r =
     (let message = stream_data_to_airbyte_message (record_stream_name r) (record_data r) in
      case map_of instances (record_stream_name r) of
        None \<Rightarrow> ([], Inl (KeyError (record_stream_name r)))
      | Some s \<Rightarrow>
          (case map_of (record_counter st) (name s) of
             None \<Rightarrow> ([], Inl (KeyError (name s)))
           | Some n \<Rightarrow>
               let running = (if n = 0
                              then [Log_info (Marking_stream_as_RUNNING (name s)),
                                    Yield (Stream_status (name s) (namespace s) RUNNING)]
                              else []);
                   st1 = st\<lparr> record_counter := AList.update (name s) (n + 1) (record_counter st) \<rparr>;
                   st2 = (if is_record_message message
                          then st1\<lparr> total_records_counter := total_records_counter st1 + 1 \<rparr>
                          else st1)
               in (running @ [Yield message, Cursor_observe (record_stream_name r) r]
                     @ map Yield (message_repository st2),
                   Inr (st2\<lparr> message_repository := [] \<rparr>))))"

definition all_partitions_done :: "driver_state \<Rightarrow> bool" where
  "all_partitions_done st = list_all (\<lambda>e. list_all snd (snd e)) (streams_to_partitions_to_done st)"

text \<open>The test at the end of the loop body; the flag is what
  \<^verbatim>\<open>all([f.done() for f in futures])\<close> finds at that moment.\<close>

definition end_of_iteration :: "driver_state \<Rightarrow> bool \<Rightarrow> step_result" where
  "end_of_iteration st futures_done =
     (if partition_generator_running st = [] \<and> partition_generators st = []
         \<and> all_partitions_done st
      then (if futures_done then Break else Continue st)
      else Continue st)"

definition yield_status :: "airbyte_message option \<Rightarrow> event list" where
  "yield_status m = (case m of None \<Rightarrow> [] | Some msg \<Rightarrow> [Yield msg])"

text \<open>One turn of the \<^verbatim>\<open>while\<close> loop, for the item that \<^verbatim>\<open>queue.get\<close> returned.\<close>

definition step ::
  "bool \<Rightarrow> (string \<times> abstract_stream) list \<Rightarrow> driver_state \<Rightarrow> queue_item \<times> bool
    \<Rightarrow> event list \<times> step_result" where
  "step log_slices instances st x =
     (case fst x of
        Exception_item e \<Rightarrow>
          (case stop_streams instances st of
             (evs, Some e') \<Rightarrow> (evs, Raise e')
           | (evs, None) \<Rightarrow> (evs, Raise e))
      | PartitionGenerationCompletedSentinel g \<Rightarrow>
          (case handle_partition_generation_completed st g of
             (evs, Inl e) \<Rightarrow> (evs, Raise e)
           | (evs, Inr (m, st')) \<Rightarrow> (evs @ yield_status m, end_of_iteration st' (snd x)))
      | Partition_item p \<Rightarrow>
          (case handle_partition log_slices st p of
             (evs, Inl e) \<Rightarrow> (evs, Raise e)
           | (evs, Inr st') \<Rightarrow> (evs, end_of_iteration st' (snd x)))
      | PartitionCompleteSentinel p \<Rightarrow>
          (case handle_partition_completed instances st p of
             (evs, Inl e) \<Rightarrow> (evs, Raise e)
           | (evs, Inr (m, st')) \<Rightarrow>
               (evs @ yield_status m,
                if streams_in_progress st' = [] then Break
                else end_of_iteration st' (snd x)))
      | Record_item r \<Rightarrow>
          (case handle_record instances st r of
             (evs, Inl e) \<Rightarrow> (evs, Raise e)
           | (evs, Inr st') \<Rightarrow> (evs, end_of_iteration st' (snd x))))"

text \<open>The loop, run on the items that the queue hands out; \<open>Continue\<close> at the end of
  the list is the state in which the Driver asks the queue for the next item.\<close>

fun main_loop ::
  "bool \<Rightarrow> (string \<times> abstract_stream) list \<Rightarrow> driver_state \<Rightarrow> (queue_item \<times> bool) list
    \<Rightarrow> event list \<times> step_result" where
  "main_loop log_slices instances st [] = ([], Continue st)"
| "main_loop log_slices instances st (x # q) =
     (case step log_slices instances st x of
        (evs, Continue st') \<Rightarrow>
          (case main_loop log_slices instances st' q of (evs', r) \<Rightarrow> (evs @ evs', r))
      | (evs, r) \<Rightarrow> (evs, r))"

definition after_loop :: "concurrent_source \<Rightarrow> event list" where
  "after_loop src =
     [Threadpool_shutdown, Log_info Timer_report, Log_info (Finished_syncing (source_name src))]"

text \<open>How a run ends: the loop was left by \<^verbatim>\<open>break\<close>, an exception left it, or the
  queue has nothing more and \<^verbatim>\<open>queue.get\<close> raises \<^verbatim>\<open>Empty\<close> when its timeout
  passes (with no timeout it never returns).\<close>

definition finish :: "concurrent_source \<Rightarrow> event list \<times> step_result \<Rightarrow> event list \<times> outcome" where
  "finish src res =
     (case res of
        (evs, Continue st) \<Rightarrow>
          (evs, case timeout_seconds src of None \<Rightarrow> Blocked | Some t \<Rightarrow> Raised Queue_Empty)
      | (evs, Break) \<Rightarrow> (evs @ after_loop src, Returned)
      | (evs, Raise e) \<Rightarrow> (evs, Raised e))"

definition prepend :: "event list \<Rightarrow> event list \<times> 'a \<Rightarrow> event list \<times> 'a" where
  "prepend evs res = (evs @ fst res, snd res)"

text \<open>Lines 48 to 105 of \<^verbatim>\<open>read\<close>: everything before the first
  \<^verbatim>\<open>queue.get\<close>.\<close>

definition start_up ::
  "concurrent_source \<Rightarrow> string list
    \<Rightarrow> event list \<times> (py_exception + (string \<times> abstract_stream) list \<times> driver_state)" where
  "start_up src catalog =
     prepend [Log_info (Starting_syncing (source_name src))]
       (case streams_as_abstract_streams (streams src) of
          Inl e \<Rightarrow> ([], Inl e)
        | Inr ss \<Rightarrow>
            (case select_streams (raise_exception_on_missing_stream src)
                    (stream_instances_of ss) catalog of
               (evs, Inl e) \<Rightarrow> (evs, Inl e)
             | (evs, Inr to_read) \<Rightarrow>
                 (case start_generators (initial_state to_read) of
                    (evs1, Inl e) \<Rightarrow> (evs @ evs1, Inl e)
                  | (evs1, Inr st) \<Rightarrow> (evs @ evs1, Inr (stream_instances_of ss, st)))))"

definition read ::
  "concurrent_source \<Rightarrow> string list \<Rightarrow> (queue_item \<times> bool) list \<Rightarrow> event list \<times> outcome" where
  "read src catalog queue =
     (case start_up src catalog of
        (evs, Inl e) \<Rightarrow> (evs, Raised e)
      | (evs, Inr (instances, st)) \<Rightarrow>
          prepend evs (finish src (main_loop (should_log_slice_message src) instances st queue)))"

section \<open>Predicates of the statements and of the proofs\<close>

text \<open>The statuses yielded for one stream, in the order of the run.\<close>

fun statuses :: "string \<Rightarrow> event list \<Rightarrow> airbyte_stream_status list" where
  "statuses n [] = []"
| "statuses n (Yield (Stream_status m ns s) # evs) =
     (if m = n then s # statuses n evs else statuses n evs)"
| "statuses n (ev # evs) = statuses n evs"

text \<open>A status message carries no namespace when it is STARTED, and otherwise the
  namespace of the stream instance of that name.\<close>

fun namespace_as_built :: "(string \<times> abstract_stream) list \<Rightarrow> event \<Rightarrow> bool" where
  "namespace_as_built i (Yield (Stream_status n ns s)) =
     (if s = STARTED then ns = None
      else (case map_of i n of None \<Rightarrow> False | Some str \<Rightarrow> ns = namespace str))"
| "namespace_as_built i ev = True"

text \<open>Every entry of the dictionary of stream instances stands under its own name.\<close>

definition keyed :: "(string \<times> abstract_stream) list \<Rightarrow> bool" where
  "keyed instances \<longleftrightarrow> (\<forall>n s. map_of instances n = Some s \<longrightarrow> name s = n)"

fun is_slice_log :: "airbyte_message \<Rightarrow> bool" where
  "is_slice_log (Slice_log_message _) = True"
| "is_slice_log _ = False"

definition eligible_name :: "(string \<times> abstract_stream) list \<Rightarrow> string \<Rightarrow> bool" where
  "eligible_name instances n \<longleftrightarrow>
     (case map_of instances n of None \<Rightarrow> False | Some s \<Rightarrow> is_available s)"

text \<open>What holds of the state of the Driver throughout a run: every stream name it
  holds is the name of an available stream instance, the set of streams in progress has
  no repetition, and the message repository holds slice messages only.\<close>

definition driver_inv :: "(string \<times> abstract_stream) list \<Rightarrow> driver_state \<Rightarrow> bool" where
  "driver_inv instances st \<longleftrightarrow>
     (\<forall>n \<in> set (partition_generators st). eligible_name instances n) \<and>
     (\<forall>n \<in> set (streams_in_progress st). eligible_name instances n) \<and>
     (\<forall>n c. map_of (record_counter st) n = Some c \<longrightarrow> eligible_name instances n) \<and>
     (\<forall>n d. map_of (streams_to_partitions_to_done st) n = Some d
        \<longrightarrow> eligible_name instances n) \<and>
     distinct (streams_in_progress st) \<and>
     list_all is_slice_log (message_repository st)"

text \<open>The events that the loop of \<^verbatim>\<open>read\<close> can produce: no warning, no start of
  a timer, no timing report.\<close>

fun loop_event :: "event \<Rightarrow> bool" where
  "loop_event (Log_warning _) = False"
| "loop_event (Timer_start_event _) = False"
| "loop_event (Log_info Timer_report) = False"
| "loop_event (Log_info (Starting_syncing _)) = False"
| "loop_event _ = True"

text \<open>The number of records of one stream among the items popped from the queue.\<close>

fun is_record_of :: "string \<Rightarrow> queue_item \<Rightarrow> bool" where
  "is_record_of n (Record_item r) = (record_stream_name r = n)"
| "is_record_of n _ = False"

definition records_of :: "string \<Rightarrow> (queue_item \<times> bool) list \<Rightarrow> nat" where
  "records_of n q = length (filter (\<lambda>x. is_record_of n (fst x)) q)"

text \<open>No stream that waits for its generator or is in progress has had its COMPLETE
  yet; \<open>pre\<close> are the events of the run so far.\<close>

definition complete_inv :: "driver_state \<Rightarrow> event list \<Rightarrow> bool" where
  "complete_inv st pre \<longleftrightarrow>
     distinct (partition_generators st) \<and>
     (\<forall>n \<in> set (partition_generators st).
        n \<notin> set (streams_in_progress st) \<and> COMPLETE \<notin> set (statuses n pre)) \<and>
     (\<forall>n \<in> set (streams_in_progress st). COMPLETE \<notin> set (statuses n pre))"

text \<open>The events by which the abort on an exception item shows: the shutdown of the thread
  pool and an INCOMPLETE status.\<close>

fun abort_event :: "event \<Rightarrow> bool" where
  "abort_event Threadpool_shutdown = True"
| "abort_event (Yield (Stream_status n ns INCOMPLETE)) = True"
| "abort_event ev = False"

text \<open>The sequences of statuses that are an initial part of STARTED, at most one RUNNING,
  then COMPLETE or INCOMPLETE.\<close>

definition lifecycle :: "airbyte_stream_status list \<Rightarrow> bool" where
  "lifecycle ss \<longleftrightarrow>
     ss \<in> {[], [STARTED], [STARTED, RUNNING], [STARTED, COMPLETE], [STARTED, INCOMPLETE],
           [STARTED, RUNNING, COMPLETE], [STARTED, RUNNING, INCOMPLETE]}"

text \<open>Every record is popped while its stream is in the set of streams in progress: along
  the run from a state of the Driver, and for a whole run of \<^verbatim>\<open>read\<close>.\<close>

fun records_in_progress ::
  "bool \<Rightarrow> (string \<times> abstract_stream) list \<Rightarrow> driver_state \<Rightarrow> (queue_item \<times> bool) list
    \<Rightarrow> bool" where
  "records_in_progress l i st [] = True"
| "records_in_progress l i st (x # q) =
     ((case fst x of
         Record_item r \<Rightarrow> record_stream_name r \<in> set (streams_in_progress st)
       | _ \<Rightarrow> True)
      \<and> (case step l i st x of
           (evs, Continue st') \<Rightarrow> records_in_progress l i st' q
         | _ \<Rightarrow> True))"

definition well_timed ::
  "concurrent_source \<Rightarrow> string list \<Rightarrow> (queue_item \<times> bool) list \<Rightarrow> bool" where
  "well_timed src catalog queue =
     (case start_up src catalog of
        (evs0, Inl e) \<Rightarrow> True
      | (evs0, Inr (i, st0)) \<Rightarrow> records_in_progress (should_log_slice_message src) i st0 queue)"

text \<open>How the statuses yielded so far for one stream stand to the state of the Driver: none
  while the stream waits for its generator, STARTED and then RUNNING (from the first
  record on) while it is in progress, and otherwise nothing or a sequence that ends in
  COMPLETE.\<close>

definition stream_ok :: "driver_state \<Rightarrow> event list \<Rightarrow> string \<Rightarrow> bool" where
  "stream_ok st pre n \<longleftrightarrow>
     (if n \<in> set (partition_generators st)
      then n \<notin> set (streams_in_progress st) \<and> statuses n pre = []
           \<and> map_of (record_counter st) n = Some 0
      else if n \<in> set (streams_in_progress st)
      then (case map_of (record_counter st) n of
              None \<Rightarrow> False
            | Some c \<Rightarrow> statuses n pre = (if c = 0 then [STARTED] else [STARTED, RUNNING]))
      else statuses n pre \<in> {[], [STARTED, COMPLETE], [STARTED, RUNNING, COMPLETE]})"

definition status_inv :: "driver_state \<Rightarrow> event list \<Rightarrow> bool" where
  "status_inv st pre \<longleftrightarrow> distinct (partition_generators st) \<and> (\<forall>n. stream_ok st pre n)"

section \<open>A small source for the concrete runs\<close>

definition stream_a :: abstract_stream where
  "stream_a = \<lparr> name = ''a'', namespace = Some ''ns'', is_available = True,
                availability_message = [] \<rparr>"

definition stream_b :: abstract_stream where
  "stream_b = \<lparr> name = ''b'', namespace = None, is_available = True,
                availability_message = [] \<rparr>"

definition stream_u :: abstract_stream where
  "stream_u = \<lparr> name = ''u'', namespace = None, is_available = False,
                availability_message = ''down'' \<rparr>"

definition example_source :: concurrent_source where
  "example_source =
     \<lparr> source_name = ''src'', max_workers = 4, timeout_seconds = Some 300,
       raise_exception_on_missing_stream = True,
       streams = [StreamFacade stream_a, StreamFacade stream_b, StreamFacade stream_u],
       should_log_slice_message = True \<rparr>"

section \<open>Basic facts\<close>

declare start_generators.simps [simp del]

lemmas example_defs = example_source_def stream_a_def stream_b_def stream_u_def
  stream_instances_of_def

text \<open>With the cap at one, the start-up loop runs its body once.\<close>

lemma start_generators_unfold:
  "start_generators st =
     (if partition_generator_running st = [] then
        (case partition_generators st of
           [] \<Rightarrow> ([], Inl IndexError)
         | g # gs \<Rightarrow>
             (submit_generator_events g @ [Yield (Stream_status g None STARTED)],
              Inr (start_generator g gs st)))
      else ([], Inr st))"
  by (subst start_generators.simps, subst start_generators.simps)
     (simp add: max_number_of_partition_generator_in_progress_def start_generator_def
          split: list.split)

lemmas run_defs = read_def start_up_def prepend_def finish_def start_generators_unfold
  initial_state_def step_def handle_partition_def handle_partition_generation_completed_def
  handle_partition_completed_def handle_record_def stop_streams_def end_of_iteration_def
  all_partitions_done_def yield_status_def start_generator_def submit_generator_events_def
  update_timer_def after_loop_def stream_data_to_airbyte_message_def

lemma select_streams_no_yield:
  "select_streams rm inst cs = (evs, r) \<Longrightarrow> Yield m \<notin> set evs"
  by (induction cs arbitrary: evs r) (auto split: option.splits if_splits prod.splits sum.splits)

lemma end_of_iteration_Continue:
  "end_of_iteration st fd = Continue st' \<Longrightarrow> st' = st"
  by (auto simp: end_of_iteration_def split: if_splits)

lemma map_of_fst_image: "map_of al k = Some v \<Longrightarrow> k \<in> fst ` set al"
  by (metis domI dom_map_of_conv_image_fst)

lemma handle_partition_inv:
  "driver_inv i st \<Longrightarrow> handle_partition l st p = (evs, Inr st') \<Longrightarrow> driver_inv i st'"
  by (auto simp: handle_partition_def driver_inv_def Let_def update_conv'
           split: option.splits if_splits)

lemma handle_partition_generation_completed_inv:
  "driver_inv i st \<Longrightarrow> handle_partition_generation_completed st g = (evs, Inr (m, st'))
     \<Longrightarrow> driver_inv i st'"
  by (auto simp: handle_partition_generation_completed_def driver_inv_def Let_def
        start_generator_def split: list.splits if_splits)

lemma handle_partition_completed_inv:
  "driver_inv i st \<Longrightarrow> handle_partition_completed i st p = (evs, Inr (m, st'))
     \<Longrightarrow> driver_inv i st'"
  by (auto simp: handle_partition_completed_def driver_inv_def Let_def update_conv' distinct_removeAll
           split: option.splits if_splits)

lemma handle_record_inv:
  "driver_inv i st \<Longrightarrow> handle_record i st r = (evs, Inr st') \<Longrightarrow> driver_inv i st'"
  by (auto simp: handle_record_def driver_inv_def Let_def update_conv'
        stream_data_to_airbyte_message_def
           split: option.splits if_splits)

lemma step_inv:
  assumes "driver_inv i st" and "step l i st x = (evs, Continue st')"
  shows "driver_inv i st'"
proof (cases "fst x")
  case (Exception_item e)
  with assms(2) show ?thesis
    by (auto simp: step_def split: prod.splits option.splits)
next
  case (PartitionGenerationCompletedSentinel g)
  with assms show ?thesis
    by (auto simp: step_def split: prod.splits sum.splits
          dest!: end_of_iteration_Continue dest: handle_partition_generation_completed_inv)
next
  case (Partition_item p)
  with assms show ?thesis
    by (auto simp: step_def split: prod.splits sum.splits
          dest!: end_of_iteration_Continue dest: handle_partition_inv)
next
  case (PartitionCompleteSentinel p)
  with assms show ?thesis
    by (auto simp: step_def split: prod.splits sum.splits if_splits
          dest!: end_of_iteration_Continue dest: handle_partition_completed_inv)
next
  case (Record_item r)
  with assms show ?thesis
    by (auto simp: step_def split: prod.splits sum.splits
          dest!: end_of_iteration_Continue dest: handle_record_inv)
qed

lemma main_loop_invariant:
  assumes "\<And>st x evs st'. P st \<Longrightarrow> step l i st x = (evs, Continue st') \<Longrightarrow> P st'"
    and "P st" and "main_loop l i st q = (evs, Continue st')"
  shows "P st'"
  using assms(2,3)
proof (induction q arbitrary: st evs)
  case Nil
  then show ?case by simp
next
  case (Cons x q)
  obtain e1 r1 where s: "step l i st x = (e1, r1)" by (cases "step l i st x")
  show ?case
  proof (cases r1)
    case (Continue st1)
    obtain e2 r2 where m: "main_loop l i st1 q = (e2, r2)" by (cases "main_loop l i st1 q")
    from Cons.prems(2) s Continue m have "r2 = Continue st'" by simp
    with m Cons.IH[of st1 e2] assms(1)[OF Cons.prems(1)] s Continue show ?thesis by simp
  next
    case Break
    with Cons.prems(2) s show ?thesis by simp
  next
    case (Raise e)
    with Cons.prems(2) s show ?thesis by simp
  qed
qed

lemma main_loop_inv:
  "driver_inv i st \<Longrightarrow> main_loop l i st q = (evs, Continue st') \<Longrightarrow> driver_inv i st'"
  using main_loop_invariant[where P = "driver_inv i"] step_inv by blast

lemma main_loop_append:
  "main_loop l i st (q1 @ q2) =
     (case main_loop l i st q1 of
        (evs, Continue st') \<Rightarrow> prepend evs (main_loop l i st' q2)
      | (evs, r) \<Rightarrow> (evs, r))"
proof (induction q1 arbitrary: st)
  case Nil
  then show ?case by (simp add: prepend_def)
next
  case (Cons x q1)
  then show ?case
    by (auto simp: prepend_def split: prod.splits step_result.splits)
qed

lemma statuses_append: "statuses n (xs @ ys) = statuses n xs @ statuses n ys"
  by (induction n xs rule: statuses.induct) auto

lemma keyed_update: "keyed m \<Longrightarrow> keyed (AList.update (name s) s m)"
  by (auto simp: keyed_def update_conv' split: if_splits)

lemma fold_update_keyed:
  "keyed m \<Longrightarrow> keyed (fold (\<lambda>s m. AList.update (name s) s m) ss m)"
  by (induction ss arbitrary: m) (simp_all add: keyed_update)

lemma keyed_stream_instances_of: "keyed (stream_instances_of ss)"
  unfolding stream_instances_of_def
  by (rule fold_update_keyed) (simp add: keyed_def)

lemma select_streams_eligible:
  "select_streams rm i cs = (evs, Inr to_read) \<Longrightarrow> keyed i \<Longrightarrow> s \<in> set to_read
     \<Longrightarrow> eligible_name i (name s)"
  by (induction cs arbitrary: evs to_read)
     (auto simp: eligible_name_def keyed_def split: option.splits if_splits prod.splits sum.splits)

lemma fold_update_const_lookup:
  "map_of (fold (\<lambda>s m. AList.update (name s) v m) ss m) n
     = (if n \<in> name ` set ss then Some v else map_of m n)"
  by (induction ss arbitrary: m) (auto simp: update_conv')

lemma initial_state_inv:
  "(\<And>s. s \<in> set to_read \<Longrightarrow> eligible_name i (name s)) \<Longrightarrow> driver_inv i (initial_state to_read)"
  by (auto simp: driver_inv_def initial_state_def fold_update_const_lookup split: if_splits)

lemma start_generators_inv:
  "driver_inv i st \<Longrightarrow> start_generators st = (evs, Inr st') \<Longrightarrow> driver_inv i st'"
  by (auto simp: start_generators_unfold driver_inv_def start_generator_def
           split: if_splits list.splits)

lemma start_up_instances:
  "start_up src catalog = (evs0, Inr (i, st0))
     \<Longrightarrow> \<exists>ss. streams_as_abstract_streams (streams src) = Inr ss \<and> i = stream_instances_of ss"
  by (auto simp: start_up_def prepend_def split: sum.splits prod.splits)

lemma start_up_inv:
  assumes "start_up src catalog = (evs0, Inr (i, st0))"
  shows "keyed i \<and> driver_inv i st0"
proof -
  from assms obtain ss e1 to_read e2 where
    ss: "streams_as_abstract_streams (streams src) = Inr ss" and i: "i = stream_instances_of ss"
    and sel: "select_streams (raise_exception_on_missing_stream src) i catalog = (e1, Inr to_read)"
    and sg: "start_generators (initial_state to_read) = (e2, Inr st0)"
    by (auto simp: start_up_def prepend_def split: sum.splits prod.splits)
  have k: "keyed i" by (simp add: i keyed_stream_instances_of)
  have "driver_inv i (initial_state to_read)"
    using select_streams_eligible[OF sel k] by (rule initial_state_inv)
  with sg k show ?thesis by (auto dest: start_generators_inv)
qed

lemma main_loop_events:
  assumes "\<And>st x evs st'. P st \<Longrightarrow> step l i st x = (evs, Continue st') \<Longrightarrow> P st'"
    and "\<And>st x evs r. P st \<Longrightarrow> step l i st x = (evs, r) \<Longrightarrow> list_all Q evs"
    and "P st" and "main_loop l i st q = (evs, r)"
  shows "list_all Q evs"
  using assms(3,4)
proof (induction q arbitrary: st evs r)
  case Nil
  then show ?case by simp
next
  case (Cons x q)
  obtain e1 r1 where s: "step l i st x = (e1, r1)" by (cases "step l i st x")
  have q1: "list_all Q e1" using assms(2)[OF Cons.prems(1) s] .
  show ?case
  proof (cases r1)
    case (Continue st1)
    obtain e2 r2 where m: "main_loop l i st1 q = (e2, r2)" by (cases "main_loop l i st1 q")
    have "P st1" using assms(1)[OF Cons.prems(1)] s Continue by simp
    then have "list_all Q e2" using Cons.IH m by blast
    with q1 Cons.prems(2) s Continue m show ?thesis by auto
  next
    case Break
    with Cons.prems(2) s q1 show ?thesis by simp
  next
    case (Raise e)
    with Cons.prems(2) s q1 show ?thesis by simp
  qed
qed

lemma stop_streams_loop_namespace:
  "keyed i \<Longrightarrow> stop_streams_loop i ns = (evs, r) \<Longrightarrow> list_all (namespace_as_built i) evs"
proof (induction ns arbitrary: evs r)
  case Nil
  then show ?case by simp
next
  case (Cons n ns)
  then show ?case
    by (auto simp: keyed_def update_timer_def
             split: option.splits prod.splits)
qed

lemma slice_logs_namespace:
  "list_all is_slice_log ms \<Longrightarrow> list_all (namespace_as_built i) (map Yield ms)"
proof (induction ms)
  case Nil
  then show ?case by simp
next
  case (Cons m ms)
  then show ?case by (cases m) auto
qed

lemma step_namespace:
  assumes "keyed i" and "driver_inv i st" and "step l i st x = (evs, r)"
  shows "list_all (namespace_as_built i) evs"
proof (cases "fst x")
  case (Exception_item e)
  with assms(3) show ?thesis
    by (auto simp: step_def stop_streams_def
            split: prod.splits option.splits
            dest: stop_streams_loop_namespace[OF assms(1)])
next
  case (PartitionGenerationCompletedSentinel g)
  with assms(3) show ?thesis
    by (auto simp: step_def handle_partition_generation_completed_def Let_def
          yield_status_def submit_generator_events_def
            split: if_splits list.splits)
next
  case (Partition_item p)
  with assms(3) show ?thesis
    by (auto simp: step_def handle_partition_def Let_def
            split: option.splits if_splits)
next
  case (PartitionCompleteSentinel p)
  with assms(1,3) show ?thesis
    by (auto simp: step_def handle_partition_completed_def Let_def
          yield_status_def update_timer_def keyed_def
            split: option.splits if_splits)
next
  case (Record_item r')
  have "list_all (namespace_as_built i) (map Yield (message_repository st))"
    using assms(2) by (simp add: driver_inv_def slice_logs_namespace)
  with Record_item assms(1,3) show ?thesis
    by (auto simp: step_def handle_record_def Let_def
          stream_data_to_airbyte_message_def keyed_def
            split: option.splits if_splits)
qed

lemma main_loop_namespace:
  assumes "keyed i" and "driver_inv i st" and "main_loop l i st q = (evs, r)"
  shows "list_all (namespace_as_built i) evs"
proof (rule main_loop_events[where P = "driver_inv i" and Q = "namespace_as_built i"])
  show "driver_inv i st" by fact
  show "main_loop l i st q = (evs, r)" by fact
qed (auto intro: step_inv step_namespace[OF assms(1)])

lemma select_streams_namespace:
  "select_streams rm i cs = (evs, r) \<Longrightarrow> list_all (namespace_as_built j) evs"
  by (induction cs arbitrary: evs r)
     (auto split: option.splits if_splits prod.splits sum.splits)

lemma start_up_namespace:
  "start_up src catalog = (evs, r) \<Longrightarrow> list_all (namespace_as_built j) evs"
  by (auto simp: start_up_def prepend_def start_generators_unfold submit_generator_events_def
           split: sum.splits prod.splits if_splits list.splits
           dest: select_streams_namespace[where j = j])

lemma read_namespace:
  "list_all (namespace_as_built
       (case streams_as_abstract_streams (streams src) of
          Inl e \<Rightarrow> [] | Inr ss \<Rightarrow> stream_instances_of ss))
     (fst (read src catalog queue))"
proof -
  let ?j = "case streams_as_abstract_streams (streams src) of
              Inl e \<Rightarrow> [] | Inr ss \<Rightarrow> stream_instances_of ss"
  obtain evs0 r0 where su: "start_up src catalog = (evs0, r0)" by (cases "start_up src catalog")
  have e0: "list_all (namespace_as_built ?j) evs0" using su by (rule start_up_namespace)
  show ?thesis
  proof (cases r0)
    case (Inl e)
    with su e0 show ?thesis by (simp add: read_def)
  next
    case (Inr p)
    obtain i st0 where p: "p = (i, st0)" by (cases p)
    from su Inr p have su': "start_up src catalog = (evs0, Inr (i, st0))" by simp
    from start_up_instances[OF su'] have j: "?j = i" by auto
    obtain evs r where ml: "main_loop (should_log_slice_message src) i st0 queue = (evs, r)"
      by (cases "main_loop (should_log_slice_message src) i st0 queue")
    have "list_all (namespace_as_built i) evs"
      using start_up_inv[OF su'] ml main_loop_namespace by blast
    with e0 su' ml j show ?thesis
      by (cases r)
         (auto simp: read_def finish_def prepend_def after_loop_def
               split: option.splits)
  qed
qed

lemma stop_streams_loop_events:
  "stop_streams_loop i ns = (evs, r) \<Longrightarrow> list_all loop_event evs"
  by (induction ns arbitrary: evs r)
     (auto simp: update_timer_def split: option.splits prod.splits)

lemma step_loop_events:
  assumes "step l i st x = (evs, r)"
  shows "list_all loop_event evs"
proof (cases "fst x")
  case (Exception_item e)
  with assms show ?thesis
    by (auto simp: step_def stop_streams_def split: prod.splits option.splits
             dest: stop_streams_loop_events)
next
  case (PartitionGenerationCompletedSentinel g)
  with assms show ?thesis
    by (auto simp: step_def handle_partition_generation_completed_def Let_def
          yield_status_def submit_generator_events_def
            split: if_splits list.splits)
next
  case (Partition_item p)
  with assms show ?thesis
    by (auto simp: step_def handle_partition_def Let_def split: option.splits if_splits)
next
  case (PartitionCompleteSentinel p)
  with assms show ?thesis
    by (auto simp: step_def handle_partition_completed_def Let_def
          yield_status_def update_timer_def
            split: option.splits if_splits)
next
  case (Record_item r')
  have "list_all loop_event (map Yield (message_repository st))"
    by (induction "message_repository st") (auto simp: list_all_iff)
  with Record_item assms show ?thesis
    by (auto simp: step_def handle_record_def Let_def stream_data_to_airbyte_message_def
            split: option.splits if_splits)
qed

lemma main_loop_loop_events:
  assumes "main_loop l i st q = (evs, r)"
  shows "list_all loop_event evs"
proof (rule main_loop_events[where P = "\<lambda>_. True" and Q = loop_event])
  show "main_loop l i st q = (evs, r)" by fact
qed (auto intro: step_loop_events)

lemma select_streams_no_report:
  "select_streams rm i cs = (evs, r) \<Longrightarrow> Log_info Timer_report \<notin> set evs"
  by (induction cs arbitrary: evs r)
     (auto split: option.splits if_splits prod.splits sum.splits)

lemma start_up_no_report:
  "start_up src catalog = (evs, r) \<Longrightarrow> Log_info Timer_report \<notin> set evs"
  by (auto simp: start_up_def prepend_def start_generators_unfold submit_generator_events_def
           split: sum.splits prod.splits if_splits list.splits
           dest: select_streams_no_report)

lemma stop_streams_loop_abort:
  assumes "keyed i" and "\<forall>n \<in> set ns. eligible_name i n" and "distinct ns"
  shows "snd (stop_streams_loop i ns) = None
       \<and> statuses n (fst (stop_streams_loop i ns)) = (if n \<in> set ns then [INCOMPLETE] else [])
       \<and> (Timer_finish_event n \<in> set (fst (stop_streams_loop i ns)) \<longleftrightarrow> n \<in> set ns)"
  using assms(2,3)
proof (induction ns)
  case Nil
  then show ?case by simp
next
  case (Cons m ns)
  from Cons.prems obtain s where s: "map_of i m = Some s"
    by (auto simp: eligible_name_def split: option.splits)
  with assms(1) have nm: "name s = m" by (simp add: keyed_def)
  obtain evs r where r: "stop_streams_loop i ns = (evs, r)" by (cases "stop_streams_loop i ns")
  from Cons r have "r = None"
    and "statuses n evs = (if n \<in> set ns then [INCOMPLETE] else [])"
    and "Timer_finish_event n \<in> set evs \<longleftrightarrow> n \<in> set ns"
    by auto
  with s nm r Cons.prems show ?case
    by (auto simp: update_timer_def)
qed

lemma step_running_bound:
  assumes "length (partition_generator_running st) \<le> 1"
    and "step l i st x = (evs, Continue st')"
  shows "length (partition_generator_running st') \<le> 1"
proof (cases "fst x")
  case (Exception_item e)
  with assms(2) show ?thesis
    by (auto simp: step_def split: prod.splits option.splits)
next
  case (PartitionGenerationCompletedSentinel g)
  with assms show ?thesis
    by (auto simp: step_def handle_partition_generation_completed_def Let_def
          start_generator_def length_remove1
          split: prod.splits sum.splits if_splits list.splits
          dest!: end_of_iteration_Continue)
next
  case (Partition_item p)
  with assms show ?thesis
    by (auto simp: step_def handle_partition_def Let_def
          split: prod.splits sum.splits option.splits if_splits
          dest!: end_of_iteration_Continue)
next
  case (PartitionCompleteSentinel p)
  with assms show ?thesis
    by (auto simp: step_def handle_partition_completed_def Let_def
          split: prod.splits sum.splits option.splits if_splits
          dest!: end_of_iteration_Continue)
next
  case (Record_item r)
  with assms show ?thesis
    by (auto simp: step_def handle_record_def Let_def stream_data_to_airbyte_message_def
          split: prod.splits sum.splits option.splits if_splits
          dest!: end_of_iteration_Continue)
qed

lemma start_up_running:
  "start_up src catalog = (evs0, Inr (i, st0)) \<Longrightarrow> length (partition_generator_running st0) = 1"
  by (auto simp: start_up_def prepend_def start_generators_unfold initial_state_def
        start_generator_def
           split: sum.splits prod.splits if_splits list.splits)

lemma step_record_counter:
  assumes "keyed i" and "step l i st x = (evs, Continue st')"
  shows "map_of (record_counter st') n
           = map_option (\<lambda>c. c + (if is_record_of n (fst x) then 1 else 0))
               (map_of (record_counter st) n)"
proof (cases "fst x")
  case (Exception_item e)
  with assms(2) show ?thesis
    by (auto simp: step_def split: prod.splits option.splits)
next
  case (PartitionGenerationCompletedSentinel g)
  with assms(2) show ?thesis
    by (auto simp: step_def handle_partition_generation_completed_def Let_def
          start_generator_def option.map_ident
          split: prod.splits sum.splits if_splits list.splits
          dest!: end_of_iteration_Continue)
next
  case (Partition_item p)
  with assms(2) show ?thesis
    by (auto simp: step_def handle_partition_def Let_def option.map_ident
          split: prod.splits sum.splits option.splits if_splits
          dest!: end_of_iteration_Continue)
next
  case (PartitionCompleteSentinel p)
  with assms(2) show ?thesis
    by (auto simp: step_def handle_partition_completed_def Let_def option.map_ident
          split: prod.splits sum.splits option.splits if_splits
          dest!: end_of_iteration_Continue)
next
  case (Record_item r)
  with assms show ?thesis
    by (auto simp: step_def handle_record_def Let_def stream_data_to_airbyte_message_def
          update_conv' keyed_def option.map_ident
          split: prod.splits sum.splits option.splits if_splits
          dest!: end_of_iteration_Continue)
qed

lemma main_loop_record_counter:
  assumes "keyed i" and "main_loop l i st q = (evs, Continue st')"
  shows "map_of (record_counter st') n
           = map_option (\<lambda>c. c + records_of n q) (map_of (record_counter st) n)"
  using assms(2)
proof (induction q arbitrary: st evs)
  case Nil
  then show ?case by (simp add: records_of_def option.map_ident)
next
  case (Cons x q)
  obtain e1 r1 where s: "step l i st x = (e1, r1)" by (cases "step l i st x")
  show ?case
  proof (cases r1)
    case (Continue st1)
    obtain e2 r2 where m: "main_loop l i st1 q = (e2, r2)" by (cases "main_loop l i st1 q")
    from Cons.prems s Continue m have r2: "r2 = Continue st'" by simp
    have "map_of (record_counter st') n
            = map_option (\<lambda>c. c + records_of n q) (map_of (record_counter st1) n)"
      using Cons.IH m r2 by blast
    also have "map_of (record_counter st1) n
            = map_option (\<lambda>c. c + (if is_record_of n (fst x) then 1 else 0))
                (map_of (record_counter st) n)"
      using step_record_counter[OF assms(1)] s Continue by blast
    finally show ?thesis
      by (cases "map_of (record_counter st) n") (auto simp: records_of_def)
  next
    case Break
    with Cons.prems s show ?thesis by simp
  next
    case (Raise e)
    with Cons.prems s show ?thesis by simp
  qed
qed

lemma start_up_record_counter:
  "start_up src catalog = (evs0, Inr (i, st0)) \<Longrightarrow> map_of (record_counter st0) n = Some c
     \<Longrightarrow> c = 0"
  by (auto simp: start_up_def prepend_def start_generators_unfold initial_state_def
        start_generator_def fold_update_const_lookup
           split: sum.splits prod.splits if_splits list.splits)

lemma statuses_slice_logs:
  "list_all is_slice_log ms \<Longrightarrow> statuses n (map Yield ms) = []"
proof (induction ms)
  case Nil
  then show ?case by simp
next
  case (Cons m ms)
  then show ?case by (cases m) auto
qed

lemma step_complete_inv:
  assumes "keyed i" and "driver_inv i st" and "complete_inv st pre"
    and "step l i st x = (evs, Continue st')"
  shows "complete_inv st' (pre @ evs)"
proof (cases "fst x")
  case (Exception_item e)
  with assms(4) show ?thesis
    by (auto simp: step_def split: prod.splits option.splits)
next
  case (PartitionGenerationCompletedSentinel g)
  with assms(3,4) show ?thesis
    by (auto simp: step_def handle_partition_generation_completed_def Let_def
          start_generator_def complete_inv_def statuses_append yield_status_def
          submit_generator_events_def
          split: prod.splits sum.splits if_splits list.splits
          dest!: end_of_iteration_Continue)
next
  case (Partition_item p)
  with assms(3,4) show ?thesis
    by (auto simp: step_def handle_partition_def Let_def complete_inv_def statuses_append
          split: prod.splits sum.splits option.splits if_splits
          dest!: end_of_iteration_Continue)
next
  case (PartitionCompleteSentinel p)
  with assms(1,3,4) show ?thesis
    by (auto simp: step_def handle_partition_completed_def Let_def complete_inv_def
          statuses_append yield_status_def update_timer_def keyed_def
          split: prod.splits sum.splits option.splits if_splits
          dest!: end_of_iteration_Continue)
next
  case (Record_item r)
  have "statuses n (map Yield (message_repository st)) = []" for n
    using assms(2) by (simp add: driver_inv_def statuses_slice_logs)
  with Record_item assms(3,4) show ?thesis
    by (auto simp: step_def handle_record_def Let_def complete_inv_def statuses_append
          stream_data_to_airbyte_message_def
          split: prod.splits sum.splits option.splits if_splits
          dest!: end_of_iteration_Continue)
qed

lemma main_loop_complete_inv:
  assumes "keyed i" and "driver_inv i st" and "complete_inv st pre"
    and "main_loop l i st q = (evs, Continue st')"
  shows "complete_inv st' (pre @ evs)"
  using assms(2-4)
proof (induction q arbitrary: st pre evs)
  case Nil
  then show ?case by simp
next
  case (Cons x q)
  obtain e1 r1 where s: "step l i st x = (e1, r1)" by (cases "step l i st x")
  show ?case
  proof (cases r1)
    case (Continue st1)
    obtain e2 r2 where m: "main_loop l i st1 q = (e2, r2)" by (cases "main_loop l i st1 q")
    from Cons.prems(3) s Continue m have r2: "r2 = Continue st'" and e: "evs = e1 @ e2" by auto
    have d1: "driver_inv i st1" using step_inv Cons.prems(1) s Continue by blast
    have c1: "complete_inv st1 (pre @ e1)"
      using step_complete_inv[OF assms(1) Cons.prems(1,2)] s Continue by blast
    from Cons.IH[OF d1 c1] m r2 e show ?thesis by simp
  next
    case Break
    with Cons.prems(3) s show ?thesis by simp
  next
    case (Raise e)
    with Cons.prems(3) s show ?thesis by simp
  qed
qed

lemma select_streams_names:
  "select_streams rm i cs = (evs, Inr to_read) \<Longrightarrow> keyed i
     \<Longrightarrow> map name to_read = filter (eligible_name i) cs"
  by (induction cs arbitrary: evs to_read)
     (auto simp: eligible_name_def keyed_def split: option.splits if_splits prod.splits sum.splits)

lemma select_streams_statuses:
  "select_streams rm i cs = (evs, r) \<Longrightarrow> statuses n evs = []"
  by (induction cs arbitrary: evs r)
     (auto split: option.splits if_splits prod.splits sum.splits)

lemma start_up_complete_inv:
  assumes "distinct catalog" and "start_up src catalog = (evs0, Inr (i, st0))"
  shows "complete_inv st0 evs0"
proof -
  from assms(2) obtain ss e1 to_read e2 where
    ss: "streams_as_abstract_streams (streams src) = Inr ss" and i: "i = stream_instances_of ss"
    and sel: "select_streams (raise_exception_on_missing_stream src) i catalog = (e1, Inr to_read)"
    and sg: "start_generators (initial_state to_read) = (e2, Inr st0)"
    and e: "evs0 = Log_info (Starting_syncing (source_name src)) # e1 @ e2"
    by (auto simp: start_up_def prepend_def split: sum.splits prod.splits)
  have k: "keyed i" by (simp add: i keyed_stream_instances_of)
  have d: "distinct (map name to_read)"
    using select_streams_names[OF sel k] assms(1) by simp
  have s1: "statuses n e1 = []" for n using sel by (rule select_streams_statuses)
  from sg d show ?thesis
    by (auto simp: e start_generators_unfold initial_state_def start_generator_def
          complete_inv_def statuses_append s1 submit_generator_events_def
          split: if_splits list.splits)
qed

lemma slice_logs_no_abort_event:
  "list_all is_slice_log ms \<Longrightarrow> list_all (\<lambda>ev. \<not> abort_event ev) (map Yield ms)"
proof (induction ms)
  case Nil
  then show ?case by simp
next
  case (Cons m ms)
  then show ?case by (cases m) auto
qed

lemma step_no_abort_event:
  assumes "driver_inv i st" and "step l i st x = (evs, Continue st')"
  shows "list_all (\<lambda>ev. \<not> abort_event ev) evs"
proof (cases "fst x")
  case (Exception_item e)
  with assms(2) show ?thesis
    by (auto simp: step_def split: prod.splits option.splits)
next
  case (PartitionGenerationCompletedSentinel g)
  with assms(2) show ?thesis
    by (auto simp: step_def handle_partition_generation_completed_def Let_def
          yield_status_def submit_generator_events_def
            split: if_splits list.splits)
next
  case (Partition_item p)
  with assms(2) show ?thesis
    by (auto simp: step_def handle_partition_def Let_def split: option.splits if_splits)
next
  case (PartitionCompleteSentinel p)
  with assms(2) show ?thesis
    by (auto simp: step_def handle_partition_completed_def Let_def
          yield_status_def update_timer_def
            split: option.splits if_splits)
next
  case (Record_item r')
  have "list_all (\<lambda>ev. \<not> abort_event ev) (map Yield (message_repository st))"
    using assms(1) by (simp add: driver_inv_def slice_logs_no_abort_event)
  with Record_item assms(2) show ?thesis
    by (auto simp: step_def handle_record_def Let_def stream_data_to_airbyte_message_def
            split: option.splits if_splits)
qed

lemma main_loop_no_abort_event:
  assumes "driver_inv i st" and "main_loop l i st q = (evs, Continue st')"
  shows "list_all (\<lambda>ev. \<not> abort_event ev) evs"
  using assms
proof (induction q arbitrary: st evs)
  case Nil
  then show ?case by simp
next
  case (Cons x q)
  obtain e1 r1 where s: "step l i st x = (e1, r1)" by (cases "step l i st x")
  show ?case
  proof (cases r1)
    case (Continue st1)
    obtain e2 r2 where m: "main_loop l i st1 q = (e2, r2)" by (cases "main_loop l i st1 q")
    from Cons.prems(2) s Continue m have r2: "r2 = Continue st'" and e: "evs = e1 @ e2" by auto
    have d1: "driver_inv i st1" using step_inv Cons.prems(1) s Continue by blast
    have "list_all (\<lambda>ev. \<not> abort_event ev) e1"
      using step_no_abort_event[OF Cons.prems(1)] s Continue by blast
    moreover have "list_all (\<lambda>ev. \<not> abort_event ev) e2"
      using Cons.IH[OF d1] m r2 by blast
    ultimately show ?thesis by (simp add: e)
  next
    case Break
    with Cons.prems(2) s show ?thesis by simp
  next
    case (Raise e)
    with Cons.prems(2) s show ?thesis by simp
  qed
qed

lemma select_streams_no_abort_event:
  "select_streams rm i cs = (evs, r) \<Longrightarrow> list_all (\<lambda>ev. \<not> abort_event ev) evs"
  by (induction cs arbitrary: evs r)
     (auto split: option.splits if_splits prod.splits sum.splits)

lemma start_up_no_abort_event:
  "start_up src catalog = (evs, r) \<Longrightarrow> list_all (\<lambda>ev. \<not> abort_event ev) evs"
  by (auto simp: start_up_def prepend_def start_generators_unfold submit_generator_events_def
           split: sum.splits prod.splits if_splits list.splits
           dest: select_streams_no_abort_event)

lemma no_abort_event_statuses:
  "list_all (\<lambda>ev. \<not> abort_event ev) evs \<Longrightarrow> INCOMPLETE \<notin> set (statuses n evs)"
  by (induction n evs rule: statuses.induct) auto

lemma status_invI:
  "distinct (partition_generators st) \<Longrightarrow> (\<And>n. stream_ok st pre n) \<Longrightarrow> status_inv st pre"
  by (simp add: status_inv_def)

lemma status_invD: "status_inv st pre \<Longrightarrow> stream_ok st pre n"
  by (simp add: status_inv_def)

lemma status_inv_distinct: "status_inv st pre \<Longrightarrow> distinct (partition_generators st)"
  by (simp add: status_inv_def)

lemma stream_ok_lifecycle: "stream_ok st pre n \<Longrightarrow> lifecycle (statuses n pre)"
  by (auto simp: stream_ok_def lifecycle_def split: if_splits option.splits)

lemma start_generator_stream_ok:
  assumes "distinct (g # gs)" and "partition_generators st = g # gs"
    and "stream_ok st pre n" and "stream_ok st pre g"
  shows "stream_ok (start_generator g gs st)
           (pre @ submit_generator_events g @ [Yield (Stream_status g None STARTED)]) n"
  using assms
  by (auto simp: stream_ok_def start_generator_def statuses_append submit_generator_events_def
           split: if_splits option.splits)

lemma stream_ok_cong:
  assumes "partition_generators st' = partition_generators st"
    and "streams_in_progress st' = streams_in_progress st"
    and "record_counter st' = record_counter st"
    and "statuses n pre' = statuses n pre"
  shows "stream_ok st' pre' n = stream_ok st pre n"
  by (simp only: stream_ok_def assms)

lemma status_inv_cong:
  assumes "partition_generators st' = partition_generators st"
    and "streams_in_progress st' = streams_in_progress st"
    and "record_counter st' = record_counter st"
    and "\<And>n. statuses n pre' = statuses n pre"
    and "status_inv st pre"
  shows "status_inv st' pre'"
  using assms(5) stream_ok_cong[OF assms(1-3) assms(4)]
  by (simp add: status_inv_def assms(1))

lemma pgc_status_inv:
  assumes "status_inv st pre"
    and "handle_partition_generation_completed st g = (evs, Inr (m, st'))"
  shows "status_inv st' (pre @ evs @ yield_status m)"
proof (cases "partition_generators st")
  case Nil
  with assms(2) have "evs @ yield_status m = []"
    and "st' = st\<lparr> partition_generator_running := remove1 g (partition_generator_running st) \<rparr>"
    by (auto simp: handle_partition_generation_completed_def Let_def yield_status_def
          split: if_splits)
  then show ?thesis
    using assms(1) by (intro status_inv_cong[of st' st _ pre]) simp_all
next
  case (Cons g' gs)
  let ?st1 = "st\<lparr> partition_generator_running := remove1 g (partition_generator_running st) \<rparr>"
  from Cons assms(2) have st': "st' = start_generator g' gs ?st1"
    and ev: "evs @ yield_status m
               = submit_generator_events g' @ [Yield (Stream_status g' None STARTED)]"
    by (auto simp: handle_partition_generation_completed_def Let_def yield_status_def
          split: if_splits)
  have d: "distinct (g' # gs)" using status_inv_distinct[OF assms(1)] Cons by simp
  have ok1: "stream_ok ?st1 pre n" for n
    using status_invD[OF assms(1), of n] stream_ok_cong[of ?st1 st n pre pre] by simp
  have p1: "partition_generators ?st1 = g' # gs" using Cons by simp
  show ?thesis
  proof (rule status_invI)
    show "distinct (partition_generators st')" using d by (simp add: st' start_generator_def)
  next
    fix n
    show "stream_ok st' (pre @ evs @ yield_status m) n"
      unfolding ev st' by (rule start_generator_stream_ok[OF d p1 ok1 ok1])
  qed
qed

lemma pgc_raise:
  "handle_partition_generation_completed st g = (evs, Inl e) \<Longrightarrow> evs = []"
  by (auto simp: handle_partition_generation_completed_def Let_def split: if_splits list.splits)

lemma partition_effect:
  assumes "handle_partition l st p = (evs, r)"
  shows "statuses n evs = []
       \<and> (\<forall>st'. r = Inr st' \<longrightarrow> partition_generators st' = partition_generators st
             \<and> streams_in_progress st' = streams_in_progress st
             \<and> record_counter st' = record_counter st)"
  using assms
  by (auto simp: handle_partition_def Let_def split: option.splits if_splits)

lemma partition_status_inv:
  assumes "status_inv st pre" and "handle_partition l st p = (evs, Inr st')"
  shows "status_inv st' (pre @ evs)"
  using partition_effect[OF assms(2)] assms(1)
  by (intro status_inv_cong[of st' st _ pre]) (simp_all add: statuses_append)

lemma completed_raise:
  "handle_partition_completed i st p = (evs, Inl e) \<Longrightarrow> statuses n evs = []"
  by (auto simp: handle_partition_completed_def Let_def split: option.splits if_splits)

lemma completed_effect:
  assumes "keyed i" and "handle_partition_completed i st p = (evs, Inr (m, st'))"
  shows "partition_generators st' = partition_generators st
       \<and> record_counter st' = record_counter st
       \<and> statuses n evs = []
       \<and> ((m = None \<and> streams_in_progress st' = streams_in_progress st)
          \<or> (partition_stream_name p \<in> set (streams_in_progress st)
              \<and> streams_in_progress st'
                  = removeAll (partition_stream_name p) (streams_in_progress st)
              \<and> (\<exists>ns. m = Some (Stream_status (partition_stream_name p) ns COMPLETE))))"
  using assms
  by (auto simp: handle_partition_completed_def Let_def update_timer_def keyed_def
           split: option.splits if_splits)

lemma completed_status_inv:
  assumes "keyed i" and "status_inv st pre"
    and "handle_partition_completed i st p = (evs, Inr (m, st'))"
  shows "status_inv st' (pre @ evs @ yield_status m)"
proof -
  let ?m = "partition_stream_name p"
  note e = completed_effect[OF assms(1,3)]
  have pg: "partition_generators st' = partition_generators st"
    and rc: "record_counter st' = record_counter st"
    and ev: "\<And>n. statuses n evs = []"
    using e by blast+
  from e[of ?m] consider
      (same) "m = None" "streams_in_progress st' = streams_in_progress st"
    | (finalized) ns where "?m \<in> set (streams_in_progress st)"
        "streams_in_progress st' = removeAll ?m (streams_in_progress st)"
        "m = Some (Stream_status ?m ns COMPLETE)"
    by blast
  then show ?thesis
  proof cases
    case same
    then show ?thesis
      using assms(2) pg rc ev
      by (intro status_inv_cong[of st' st _ pre]) (simp_all add: statuses_append yield_status_def)
  next
    case finalized
    show ?thesis
    proof (rule status_invI)
      show "distinct (partition_generators st')"
        using pg status_inv_distinct[OF assms(2)] by simp
    next
      fix n
      show "stream_ok st' (pre @ evs @ yield_status m) n"
        using status_invD[OF assms(2), of n] status_invD[OF assms(2), of ?m] finalized pg rc ev[of n]
        by (auto simp: stream_ok_def statuses_append yield_status_def
                 split: if_splits option.splits)
    qed
  qed
qed

lemma record_raise:
  "handle_record i st r = (evs, Inl e) \<Longrightarrow> evs = []"
  by (auto simp: handle_record_def Let_def split: option.splits if_splits)

lemma record_effect:
  assumes "keyed i" and "list_all is_slice_log (message_repository st)"
    and "handle_record i st r = (evs, Inr st')"
  shows "partition_generators st' = partition_generators st
       \<and> streams_in_progress st' = streams_in_progress st
       \<and> (\<exists>c. map_of (record_counter st) (record_stream_name r) = Some c
             \<and> record_counter st' = AList.update (record_stream_name r) (c + 1) (record_counter st)
             \<and> statuses n evs = (if n = record_stream_name r \<and> c = 0 then [RUNNING] else []))"
proof -
  let ?m = "record_stream_name r"
  have sl: "statuses n (map Yield (message_repository st)) = []"
    using assms(2) by (rule statuses_slice_logs)
  obtain s where s: "map_of i ?m = Some s"
    using assms(3) by (cases "map_of i ?m") (simp_all add: handle_record_def)
  have nm: "name s = ?m" using assms(1) s by (simp add: keyed_def)
  obtain c where c: "map_of (record_counter st) ?m = Some c"
    using assms(3) s nm
    by (cases "map_of (record_counter st) ?m") (simp_all add: handle_record_def)
  have ev: "evs = (if c = 0
                   then [Log_info (Marking_stream_as_RUNNING ?m),
                         Yield (Stream_status ?m (namespace s) RUNNING)]
                   else [])
                  @ [Yield (Record_message ?m (record_data r)), Cursor_observe ?m r]
                  @ map Yield (message_repository st)"
    and st': "st' = st\<lparr> record_counter := AList.update ?m (c + 1) (record_counter st),
                         total_records_counter := total_records_counter st + 1,
                         message_repository := [] \<rparr>"
    using assms(3) s nm c
    by (auto simp: handle_record_def Let_def stream_data_to_airbyte_message_def)
  show ?thesis
    unfolding ev st' using c sl by (simp add: statuses_append)
qed

lemma record_status_inv:
  assumes "keyed i" and "driver_inv i st" and "status_inv st pre"
    and "record_stream_name r \<in> set (streams_in_progress st)"
    and "handle_record i st r = (evs, Inr st')"
  shows "status_inv st' (pre @ evs)"
proof -
  let ?m = "record_stream_name r"
  have sl: "list_all is_slice_log (message_repository st)"
    using assms(2) by (simp add: driver_inv_def)
  note e = record_effect[OF assms(1) sl assms(5)]
  have pg: "partition_generators st' = partition_generators st"
    and ip: "streams_in_progress st' = streams_in_progress st"
    using e by blast+
  from e[of ?m] obtain c where c: "map_of (record_counter st) ?m = Some c"
    and rc: "record_counter st' = AList.update ?m (c + 1) (record_counter st)"
    by blast
  have ev: "statuses n evs = (if n = ?m \<and> c = 0 then [RUNNING] else [])" for n
    using e[of n] c by auto
  show ?thesis
  proof (rule status_invI)
    show "distinct (partition_generators st')"
      using pg status_inv_distinct[OF assms(3)] by simp
  next
    fix n
    show "stream_ok st' (pre @ evs) n"
      using status_invD[OF assms(3), of n] status_invD[OF assms(3), of ?m] assms(4) pg ip rc c
        ev[of n]
      by (auto simp: stream_ok_def statuses_append update_conv'
               split: if_splits option.splits)
  qed
qed

lemma exception_lifecycle:
  assumes "keyed i" and "driver_inv i st" and "status_inv st pre"
    and "step l i st (Exception_item e, fd) = (evs, r)"
  shows "(\<exists>e'. r = Raise e') \<and> lifecycle (statuses n (pre @ evs))"
proof -
  let ?ss = "stop_streams_loop i (streams_in_progress st)"
  have ab: "snd ?ss = None"
      "statuses n (fst ?ss) = (if n \<in> set (streams_in_progress st) then [INCOMPLETE] else [])"
    using stop_streams_loop_abort[OF assms(1), of "streams_in_progress st" n] assms(2)
    by (simp_all add: driver_inv_def)
  have ev: "evs = Threadpool_shutdown # fst ?ss" and r: "r = Raise e"
    using assms(4) ab(1) by (cases ?ss; simp add: step_def stop_streams_def)+
  show ?thesis
    using status_invD[OF assms(3), of n] ab(2)
    by (auto simp: ev r statuses_append stream_ok_def lifecycle_def
             split: if_splits option.splits)
qed

lemma end_of_iteration_lifecycle:
  assumes "status_inv st t"
  shows "case end_of_iteration st fd of
           Continue s \<Rightarrow> status_inv s t
         | _ \<Rightarrow> (\<forall>n. lifecycle (statuses n t))"
  using assms stream_ok_lifecycle[OF status_invD[OF assms]]
  by (simp add: end_of_iteration_def)

lemma step_lifecycle:
  assumes "keyed i" and "driver_inv i st" and "status_inv st pre"
    and "case fst x of
           Record_item r \<Rightarrow> record_stream_name r \<in> set (streams_in_progress st)
         | _ \<Rightarrow> True"
    and "step l i st x = (evs, r)"
  shows "case r of
           Continue st' \<Rightarrow> status_inv st' (pre @ evs)
         | _ \<Rightarrow> (\<forall>n. lifecycle (statuses n (pre @ evs)))"
proof -
  have base: "lifecycle (statuses n pre)" for n
    using stream_ok_lifecycle[OF status_invD[OF assms(3)]] .
  obtain it fd where x: "x = (it, fd)" by (cases x)
  show ?thesis
  proof (cases it)
    case (Exception_item e)
    with assms(5) x have st: "step l i st (Exception_item e, fd) = (evs, r)" by simp
    have "\<exists>e'. r = Raise e'" and "\<And>n. lifecycle (statuses n (pre @ evs))"
      using exception_lifecycle[OF assms(1-3) st] by blast+
    then show ?thesis by auto
  next
    case (PartitionGenerationCompletedSentinel g)
    obtain e1 r1 where h: "handle_partition_generation_completed st g = (e1, r1)"
      by (cases "handle_partition_generation_completed st g")
    show ?thesis
    proof (cases r1)
      case (Inl err)
      with h pgc_raise[of st g e1 err] assms(5) x PartitionGenerationCompletedSentinel base
      show ?thesis by (auto simp: step_def)
    next
      case (Inr p)
      obtain m st' where p: "p = (m, st')" by (cases p)
      have "status_inv st' (pre @ e1 @ yield_status m)"
        using pgc_status_inv[OF assms(3)] h Inr p by simp
      from end_of_iteration_lifecycle[OF this, of fd]
      show ?thesis
        using h Inr p assms(5) x PartitionGenerationCompletedSentinel
        by (auto simp: step_def)
    qed
  next
    case (Partition_item pt)
    obtain e1 r1 where h: "handle_partition l st pt = (e1, r1)"
      by (cases "handle_partition l st pt")
    show ?thesis
    proof (cases r1)
      case (Inl err)
      with h partition_effect[OF h] assms(5) x Partition_item base
      show ?thesis by (auto simp: step_def statuses_append)
    next
      case (Inr st')
      have "status_inv st' (pre @ e1)"
        using partition_status_inv[OF assms(3)] h Inr by simp
      from end_of_iteration_lifecycle[OF this, of fd]
      show ?thesis
        using h Inr assms(5) x Partition_item by (auto simp: step_def)
    qed
  next
    case (PartitionCompleteSentinel pt)
    obtain e1 r1 where h: "handle_partition_completed i st pt = (e1, r1)"
      by (cases "handle_partition_completed i st pt")
    show ?thesis
    proof (cases r1)
      case (Inl err)
      with h completed_raise[of i st pt e1 err] assms(5) x PartitionCompleteSentinel base
      show ?thesis by (auto simp: step_def statuses_append)
    next
      case (Inr p)
      obtain m st' where p: "p = (m, st')" by (cases p)
      have si: "status_inv st' (pre @ e1 @ yield_status m)"
        using completed_status_inv[OF assms(1,3)] h Inr p by simp
      have "\<forall>n. lifecycle (statuses n (pre @ e1 @ yield_status m))"
        using stream_ok_lifecycle[OF status_invD[OF si]] by simp
      with end_of_iteration_lifecycle[OF si, of fd]
      show ?thesis
        using h Inr p assms(5) x PartitionCompleteSentinel
        by (auto simp: step_def)
    qed
  next
    case (Record_item rc)
    obtain e1 r1 where h: "handle_record i st rc = (e1, r1)"
      by (cases "handle_record i st rc")
    have ip: "record_stream_name rc \<in> set (streams_in_progress st)"
      using assms(4) x Record_item by simp
    show ?thesis
    proof (cases r1)
      case (Inl err)
      with h record_raise[of i st rc e1 err] assms(5) x Record_item base
      show ?thesis by (auto simp: step_def)
    next
      case (Inr st')
      have "status_inv st' (pre @ e1)"
        using record_status_inv[OF assms(1-3) ip] h Inr by simp
      from end_of_iteration_lifecycle[OF this, of fd]
      show ?thesis
        using h Inr assms(5) x Record_item by (auto simp: step_def)
    qed
  qed
qed

lemma main_loop_lifecycle:
  assumes "keyed i"
  shows "driver_inv i st \<Longrightarrow> status_inv st pre \<Longrightarrow> records_in_progress l i st q
     \<Longrightarrow> main_loop l i st q = (evs, r)
     \<Longrightarrow> (case r of
            Continue st' \<Rightarrow> status_inv st' (pre @ evs)
          | _ \<Rightarrow> (\<forall>n. lifecycle (statuses n (pre @ evs))))"
proof (induction q arbitrary: st pre evs r)
  case Nil
  then show ?case by auto
next
  case (Cons x q)
  obtain e1 r1 where s: "step l i st x = (e1, r1)" by (cases "step l i st x")
  have g: "case fst x of
             Record_item r \<Rightarrow> record_stream_name r \<in> set (streams_in_progress st)
           | _ \<Rightarrow> True"
    using Cons.prems(3) by simp
  note sl = step_lifecycle[OF assms Cons.prems(1,2) g s]
  show ?case
  proof (cases r1)
    case (Continue st1)
    obtain e2 r2 where m: "main_loop l i st1 q = (e2, r2)" by (cases "main_loop l i st1 q")
    from Cons.prems(4) s Continue m have r2: "r2 = r" and e: "evs = e1 @ e2" by auto
    have d1: "driver_inv i st1" using step_inv Cons.prems(1) s Continue by blast
    have c1: "status_inv st1 (pre @ e1)" using sl Continue by simp
    have w1: "records_in_progress l i st1 q" using Cons.prems(3) s Continue by simp
    from Cons.IH[OF d1 c1 w1] m r2 e show ?thesis by (cases r) simp_all
  next
    case Break
    with Cons.prems(4) s sl show ?thesis by auto
  next
    case (Raise e)
    with Cons.prems(4) s sl show ?thesis by auto
  qed
qed

lemma start_up_status_inv:
  assumes "distinct catalog" and "start_up src catalog = (evs0, Inr (i, st0))"
  shows "status_inv st0 evs0"
proof -
  from assms(2) obtain ss e1 to_read e2 where
    ss: "streams_as_abstract_streams (streams src) = Inr ss" and i: "i = stream_instances_of ss"
    and sel: "select_streams (raise_exception_on_missing_stream src) i catalog = (e1, Inr to_read)"
    and sg: "start_generators (initial_state to_read) = (e2, Inr st0)"
    and e: "evs0 = (Log_info (Starting_syncing (source_name src)) # e1) @ e2"
    by (auto simp: start_up_def prepend_def split: sum.splits prod.splits)
  let ?pre = "Log_info (Starting_syncing (source_name src)) # e1"
  have k: "keyed i" by (simp add: i keyed_stream_instances_of)
  have d: "distinct (map name to_read)"
    using select_streams_names[OF sel k] assms(1) by simp
  have s1: "statuses n e1 = []" for n using sel by (rule select_streams_statuses)
  have ok0: "stream_ok (initial_state to_read) ?pre n" for n
    by (simp add: stream_ok_def initial_state_def s1 fold_update_const_lookup)
  from sg obtain g gs where pg: "map name to_read = g # gs"
    and st0: "st0 = start_generator g gs (initial_state to_read)"
    and e2: "e2 = submit_generator_events g @ [Yield (Stream_status g None STARTED)]"
    by (auto simp: start_generators_unfold initial_state_def split: if_splits list.splits)
  have pg': "partition_generators (initial_state to_read) = g # gs"
    using pg by (simp add: initial_state_def)
  have dg: "distinct (g # gs)" using d pg by simp
  show ?thesis
  proof (rule status_invI)
    show "distinct (partition_generators st0)" using dg by (simp add: st0 start_generator_def)
  next
    fix n
    show "stream_ok st0 evs0 n"
      unfolding e e2 st0 by (rule start_generator_stream_ok[OF dg pg' ok0 ok0])
  qed
qed

lemma start_up_fail_statuses:
  "start_up src catalog = (evs0, Inl e) \<Longrightarrow> statuses n evs0 = []"
  by (auto simp: start_up_def prepend_def start_generators_unfold statuses_append
           split: sum.splits prod.splits if_splits list.splits
           dest: select_streams_statuses)

section \<open>What holds of every run\<close>

text \<open>
  The abort. When the Driver pops an exception from the queue, \<^verbatim>\<open>read\<close> shuts the
  thread pool down, then for each stream in the set of streams in progress finishes its
  timer and yields one INCOMPLETE status (and no status for any other stream), and raises
  the exception that it popped. No event of such a run is the log of the timing report.
\<close>

lemma abort_on_error:
  assumes "start_up src catalog = (evs0, Inr (instances, st0))"
    and "main_loop (should_log_slice_message src) instances st0 pre = (evs, Continue st)"
  shows "\<exists>abort.
           read src catalog (pre @ (Exception_item e, futures_done) # rest)
             = (evs0 @ evs @ Threadpool_shutdown # abort, Raised e)
           \<and> (\<forall>n. statuses n abort
                    = (if n \<in> set (streams_in_progress st) then [INCOMPLETE] else []))
           \<and> (\<forall>n. Timer_finish_event n \<in> set abort \<longleftrightarrow> n \<in> set (streams_in_progress st))
           \<and> Log_info Timer_report \<notin> set (evs0 @ evs @ Threadpool_shutdown # abort)"
proof -
  let ?l = "should_log_slice_message src"
  let ?ss = "stop_streams_loop instances (streams_in_progress st)"
  have k: "keyed instances" and inv0: "driver_inv instances st0"
    using start_up_inv[OF assms(1)] by simp_all
  have inv: "driver_inv instances st" using main_loop_inv[OF inv0 assms(2)] .
  have ab: "snd ?ss = None"
      "\<And>n. statuses n (fst ?ss) = (if n \<in> set (streams_in_progress st) then [INCOMPLETE] else [])"
      "\<And>n. Timer_finish_event n \<in> set (fst ?ss) \<longleftrightarrow> n \<in> set (streams_in_progress st)"
    using stop_streams_loop_abort[OF k, of "streams_in_progress st"] inv
    by (simp_all add: driver_inv_def)
  have st: "step ?l instances st (Exception_item e, futures_done)
              = (Threadpool_shutdown # fst ?ss, Raise e)"
    using ab(1) by (cases ?ss) (simp add: step_def stop_streams_def)
  have rd: "read src catalog (pre @ (Exception_item e, futures_done) # rest)
              = (evs0 @ evs @ Threadpool_shutdown # fst ?ss, Raised e)"
    using assms st by (simp add: read_def main_loop_append prepend_def finish_def)
  have "list_all loop_event (Threadpool_shutdown # fst ?ss)"
    using step_loop_events[OF st] .
  then have "Log_info Timer_report \<notin> set (Threadpool_shutdown # fst ?ss)"
    by (auto simp: list_all_iff)
  moreover have "Log_info Timer_report \<notin> set evs"
    using main_loop_loop_events[OF assms(2)] by (auto simp: list_all_iff)
  moreover have "Log_info Timer_report \<notin> set evs0"
    using start_up_no_report[OF assms(1)] .
  ultimately have "Log_info Timer_report \<notin> set (evs0 @ evs @ Threadpool_shutdown # fst ?ss)"
    by simp
  with rd ab(2,3) show ?thesis by blast
qed

text \<open>
  A repeated sentinel. Let the catalog name each stream once, and let the partition \<open>p\<close>
  already be marked done when its sentinel is handled. The cursor's
  \<^verbatim>\<open>close_partition\<close> is called, and either \<^verbatim>\<open>KeyError\<close> is raised, or nothing
  is emitted and the state is unchanged, or the stream is still in progress and has had no
  COMPLETE in the run so far and gets its COMPLETE now. No stream gets COMPLETE twice.
\<close>

lemma duplicate_partition_sentinel:
  assumes "distinct catalog"
    and "start_up src catalog = (evs0, Inr (instances, st0))"
    and "main_loop (should_log_slice_message src) instances st0 pre = (evs, Continue st)"
    and "map_of (streams_to_partitions_to_done st) (partition_stream_name p) = Some d"
    and "map_of d p = Some True"
  shows "handle_partition_completed instances st p
           = ([Cursor_close_partition (partition_stream_name p) p],
              Inl (KeyError (partition_stream_name p)))
       \<or> handle_partition_completed instances st p
           = ([Cursor_close_partition (partition_stream_name p) p], Inr (None, st))
       \<or> (COMPLETE \<notin> set (statuses (partition_stream_name p) (evs0 @ evs))
           \<and> partition_stream_name p \<in> set (streams_in_progress st)
           \<and> (\<exists>logs ns. handle_partition_completed instances st p
                 = (Cursor_close_partition (partition_stream_name p) p # logs,
                    Inr (Some (Stream_status (partition_stream_name p) ns COMPLETE),
                         st\<lparr> streams_in_progress :=
                               removeAll (partition_stream_name p) (streams_in_progress st) \<rparr>))))"
proof -
  let ?m = "partition_stream_name p"
  have k: "keyed instances" and inv0: "driver_inv instances st0"
    using start_up_inv[OF assms(2)] by simp_all
  have inv: "driver_inv instances st" using main_loop_inv[OF inv0 assms(3)] .
  have ci: "complete_inv st (evs0 @ evs)"
    using main_loop_complete_inv[OF k inv0 start_up_complete_inv[OF assms(1,2)] assms(3)] .
  from inv assms(4) have "eligible_name instances ?m"
    unfolding driver_inv_def by blast
  then obtain s where s: "map_of instances ?m = Some s"
    by (cases "map_of instances ?m") (simp_all add: eligible_name_def)
  with k have nm: "name s = ?m" by (simp add: keyed_def)
  have u1: "AList.update p True d = d" using assms(5) by (rule update_triv)
  have u2: "AList.update ?m d (streams_to_partitions_to_done st) = streams_to_partitions_to_done st"
    using assms(4) by (rule update_triv)
  have c: "?m \<in> set (streams_in_progress st)
             \<Longrightarrow> COMPLETE \<notin> set (statuses ?m (evs0 @ evs))"
    using ci by (simp add: complete_inv_def)
  show ?thesis
    using assms(4) s nm u1 u2 c
    by (auto simp: handle_partition_completed_def Let_def split: option.splits)
qed

text \<open>
  The statuses of one stream. Let the catalog name each stream once and let every record
  be popped while its stream is in progress. Then the statuses that a run yields for a
  stream are, in this order, an initial part of: STARTED, RUNNING at most once, and one
  of COMPLETE and INCOMPLETE. So no status is yielded twice for a stream, none comes
  before its STARTED, and COMPLETE and INCOMPLETE never both.
\<close>

lemma status_sequence:
  assumes "distinct catalog" and "well_timed src catalog queue"
  shows "lifecycle (statuses n (fst (read src catalog queue)))"
proof -
  obtain evs0 r0 where su: "start_up src catalog = (evs0, r0)" by (cases "start_up src catalog")
  show ?thesis
  proof (cases r0)
    case (Inl e)
    with su start_up_fail_statuses[of src catalog evs0 e n] show ?thesis
      by (simp add: read_def lifecycle_def)
  next
    case (Inr p)
    obtain i st0 where p: "p = (i, st0)" by (cases p)
    from su Inr p have su': "start_up src catalog = (evs0, Inr (i, st0))" by simp
    let ?l = "should_log_slice_message src"
    have k: "keyed i" and inv0: "driver_inv i st0" using start_up_inv[OF su'] by simp_all
    have s0: "status_inv st0 evs0" using start_up_status_inv[OF assms(1) su'] .
    have w: "records_in_progress ?l i st0 queue"
      using assms(2) su' by (simp add: well_timed_def)
    obtain evs r where ml: "main_loop ?l i st0 queue = (evs, r)"
      by (cases "main_loop ?l i st0 queue")
    note fin = main_loop_lifecycle[OF k inv0 s0 w ml]
    show ?thesis
    proof (cases r)
      case (Continue st)
      with fin have "lifecycle (statuses n (evs0 @ evs))"
        using stream_ok_lifecycle status_invD by fastforce
      with su' ml Continue show ?thesis
        by (simp add: read_def finish_def prepend_def)
    next
      case Break
      with fin have "lifecycle (statuses n (evs0 @ evs))" by simp
      with su' ml Break show ?thesis
        by (simp add: read_def finish_def prepend_def after_loop_def statuses_append)
    next
      case (Raise e)
      with fin have "lifecycle (statuses n (evs0 @ evs))" by simp
      with su' ml Raise show ?thesis
        by (simp add: read_def finish_def prepend_def)
    qed
  qed
qed

text \<open>
  The timeout. When the queue has nothing more to hand out while the loop is still
  running, and the source has a timeout, \<^verbatim>\<open>queue.get\<close> raises \<^verbatim>\<open>Empty\<close>;
  nothing in \<^verbatim>\<open>read\<close> catches it, so the run ends there with that exception,
  after the events it had produced and with no further attempt to read the queue. In the
  whole run the thread pool is not shut down, no INCOMPLETE status is yielded and the
  timing report is not logged.
\<close>

lemma read_queue_timeout:
  assumes "start_up src catalog = (evs0, Inr (instances, st0))"
    and "main_loop (should_log_slice_message src) instances st0 queue = (evs, Continue st)"
    and "timeout_seconds src = Some t"
  shows "read src catalog queue = (evs0 @ evs, Raised Queue_Empty)
       \<and> Threadpool_shutdown \<notin> set (evs0 @ evs)
       \<and> (\<forall>n. INCOMPLETE \<notin> set (statuses n (evs0 @ evs)))
       \<and> Log_info Timer_report \<notin> set (evs0 @ evs)"
proof -
  have inv0: "driver_inv instances st0" using start_up_inv[OF assms(1)] by simp
  have q: "list_all (\<lambda>ev. \<not> abort_event ev) (evs0 @ evs)"
    using start_up_no_abort_event[OF assms(1)] main_loop_no_abort_event[OF inv0 assms(2)]
    by simp
  have 1: "read src catalog queue = (evs0 @ evs, Raised Queue_Empty)"
    using assms by (simp add: read_def finish_def prepend_def)
  have 2: "Threadpool_shutdown \<notin> set (evs0 @ evs)"
  proof
    assume "Threadpool_shutdown \<in> set (evs0 @ evs)"
    with q have "\<not> abort_event Threadpool_shutdown" unfolding list_all_iff by blast
    then show False by simp
  qed
  have 3: "\<forall>n. INCOMPLETE \<notin> set (statuses n (evs0 @ evs))"
    using no_abort_event_statuses[OF q] by blast
  have "Log_info Timer_report \<notin> set evs"
    using main_loop_loop_events[OF assms(2)] by (auto simp: list_all_iff)
  with start_up_no_report[OF assms(1)] have 4: "Log_info Timer_report \<notin> set (evs0 @ evs)"
    by simp
  from 1 2 3 4 show ?thesis by blast
qed

section \<open>The claims\<close>

text \<open>
  C1, the behaviour of the code when the Driver pops an exception. The source has the
  stream \<open>a\<close>; its generator fails at once, so the queue hands out the exception. The
  run shuts the thread pool down, finishes the timer of \<open>a\<close>, yields INCOMPLETE for
  \<open>a\<close> and raises the exception that it popped. It never logs the timing summary,
  which the claim has emitted before the error is raised again: \<^verbatim>\<open>timer.report()\<close>
  stands after the loop, where a run that ends by \<^verbatim>\<open>break\<close> logs it, and the
  \<^verbatim>\<open>raise\<close> does not reach it.
\<close>

theorem abort_without_timing_summary:
  "read example_source [''a''] [(Exception_item (Exception ''boom''), False)]
     = ([Log_info (Starting_syncing ''src''), Timer_start_event ''a'',
         Submit_generate_partitions ''a'', Log_info (Marking_stream_as_STARTED ''a''),
         Log_info (Syncing_stream ''a''), Yield (Stream_status ''a'' None STARTED),
         Threadpool_shutdown, Log_info (Marking_stream_as_STOPPED ''a''),
         Timer_finish_event ''a'', Log_info (Finished_syncing ''a''),
         Yield (Stream_status ''a'' (Some ''ns'') INCOMPLETE)],
        Raised (Exception ''boom''))
   \<and> Log_info Timer_report
       \<notin> set (fst (read example_source [''a'']
                      [(Exception_item (Exception ''boom''), False)]))"
  by (simp add: run_defs example_defs)

text \<open>
  C2, the behaviour of the code on a stream that discovers no partition. The source has
  the stream \<open>a\<close>; its generator finds nothing and puts only its completion sentinel on
  the queue, and every future is done when the Driver looks. The run starts the stream,
  emits no RUNNING, and returns without any COMPLETE for \<open>a\<close>: only
  \<^verbatim>\<open>_handle_partition_completed\<close> ever emits COMPLETE, and no partition completes.
\<close>

theorem zero_partitions_no_complete:
  "read example_source [''a''] [(PartitionGenerationCompletedSentinel ''a'', True)]
     = ([Log_info (Starting_syncing ''src''), Timer_start_event ''a'',
         Submit_generate_partitions ''a'', Log_info (Marking_stream_as_STARTED ''a''),
         Log_info (Syncing_stream ''a''), Yield (Stream_status ''a'' None STARTED),
         Threadpool_shutdown, Log_info Timer_report, Log_info (Finished_syncing ''src'')],
        Returned)"
  by (simp add: run_defs example_defs)

text \<open>
  C3, the behaviour of the code on a stream that its generator leaves last. In the first
  run the stream \<open>a\<close> discovers no partition, as in C2: the run yields STARTED for
  \<open>a\<close> and returns. In the second run \<open>a\<close> has one partition of one record, and the
  reading task puts its sentinel on the queue before the generator puts its own: the run
  yields STARTED and RUNNING for \<open>a\<close> and the record, and returns. In both, every
  future is done when the Driver looks, and no COMPLETE and no INCOMPLETE is yielded for
  \<open>a\<close>, where the claim has exactly one of them end the sequence: the completion of a
  generator never finishes a stream (the defect of C2).
\<close>

theorem started_stream_without_terminal_status:
  "statuses ''a'' (fst (read example_source [''a'']
       [(PartitionGenerationCompletedSentinel ''a'', True)])) = [STARTED]
   \<and> snd (read example_source [''a'']
       [(PartitionGenerationCompletedSentinel ''a'', True)]) = Returned
   \<and> statuses ''a'' (fst (read example_source [''a'']
       [(Partition_item (Partition ''a'' ''p1''), False),
        (Record_item (Record ''a'' ''r1''), False),
        (PartitionCompleteSentinel (Partition ''a'' ''p1''), False),
        (PartitionGenerationCompletedSentinel ''a'', True)])) = [STARTED, RUNNING]
   \<and> snd (read example_source [''a'']
       [(Partition_item (Partition ''a'' ''p1''), False),
        (Record_item (Record ''a'' ''r1''), False),
        (PartitionCompleteSentinel (Partition ''a'' ''p1''), False),
        (PartitionGenerationCompletedSentinel ''a'', True)]) = Returned"
  by (simp add: run_defs example_defs Let_def)

text \<open>
  C4, the behaviour of the code on a repeated sentinel. The partition of \<open>a\<close> completes
  while the generator of \<open>a\<close> still runs, then the generator finishes; up to there the
  partition is marked done and no COMPLETE is yielded for \<open>a\<close>, which stays in progress
  (the defect of C2: the completion of a generator never finishes a stream). The same
  sentinel once more is not ignored, as the claim has it: it finishes the stream, takes it
  out of the streams in progress and yields COMPLETE.
\<close>

theorem duplicate_sentinel_completes_stream:
  "statuses ''a'' (fst (read example_source [''a'', ''b'']
       [(Partition_item (Partition ''a'' ''p1''), False),
        (PartitionCompleteSentinel (Partition ''a'' ''p1''), False),
        (PartitionGenerationCompletedSentinel ''a'', False)])) = [STARTED]
   \<and> statuses ''a'' (fst (read example_source [''a'', ''b'']
       [(Partition_item (Partition ''a'' ''p1''), False),
        (PartitionCompleteSentinel (Partition ''a'' ''p1''), False),
        (PartitionGenerationCompletedSentinel ''a'', False),
        (PartitionCompleteSentinel (Partition ''a'' ''p1''), False)])) = [STARTED, COMPLETE]"
  by (simp add: run_defs example_defs Let_def)

text \<open>
  C5, as the code has it. The cap on the generators that run at once is the constant
  \<^verbatim>\<open>max_number_of_partition_generator_in_progress = 1\<close> written in \<^verbatim>\<open>read\<close>.
  At every point of a run, after start-up and after each turn of the loop, at most that
  many generators are in \<^verbatim>\<open>partition_generator_running\<close>. When a generation
  sentinel is handled, its stream is taken out of that list (a stream that is not in it
  makes \<^verbatim>\<open>list.remove\<close> raise \<^verbatim>\<open>ValueError\<close>); if a generator is still
  waiting, exactly the first one is submitted, joins the streams in progress and the
  running generators, and a STARTED status is returned for it; otherwise nothing is
  submitted and no status is returned.
\<close>

theorem discovery_cap:
  assumes "start_up src catalog = (evs0, Inr (instances, st0))"
    and "main_loop (should_log_slice_message src) instances st0 pre = (evs, Continue st)"
  shows "length (partition_generator_running st) \<le> max_number_of_partition_generator_in_progress
       \<and> max_number_of_partition_generator_in_progress = 1
       \<and> handle_partition_generation_completed st g =
           (if g \<notin> set (partition_generator_running st) then ([], Inl (ValueError g))
            else case partition_generators st of
                   [] \<Rightarrow> ([], Inr (None, st\<lparr> partition_generator_running := [] \<rparr>))
                 | g' # gs \<Rightarrow>
                     (submit_generator_events g',
                      Inr (Some (Stream_status g' None STARTED),
                           st\<lparr> partition_generator_running := [g'],
                               partition_generators := gs,
                               streams_in_progress := List.insert g' (streams_in_progress st) \<rparr>)))"
proof -
  have "length (partition_generator_running st0) \<le> 1"
    using start_up_running[OF assms(1)] by simp
  then have b: "length (partition_generator_running st) \<le> 1"
    using main_loop_invariant[where P = "\<lambda>s. length (partition_generator_running s) \<le> 1",
            OF _ _ assms(2)] step_running_bound by blast
  have r: "g \<in> set (partition_generator_running st) \<Longrightarrow> partition_generator_running st = [g]"
    using b by (cases "partition_generator_running st") auto
  show ?thesis
    using b r
    by (auto simp: max_number_of_partition_generator_in_progress_def
          handle_partition_generation_completed_def Let_def start_generator_def
          split: list.splits)
qed

theorem discovery_cap_witness:
  "\<exists>evs0 i st0.
      start_up example_source [''a'', ''b''] = (evs0, Inr (i, st0))
      \<and> handle_partition_generation_completed st0 ''a''
          = (submit_generator_events ''b'',
             Inr (Some (Stream_status ''b'' None STARTED),
                  st0\<lparr> partition_generator_running := [''b''],
                       partition_generators := [],
                       streams_in_progress := [''b'', ''a''] \<rparr>))"
proof -
  obtain evs0 i st0 where a: "start_up example_source [''a'', ''b''] = (evs0, Inr (i, st0))"
    by (simp add: run_defs example_defs)
  have b: "main_loop (should_log_slice_message example_source) i st0 [] = ([], Continue st0)"
    by simp
  have s: "st0 = start_generator ''a'' [''b''] (initial_state [stream_a, stream_b])"
    using a by (simp add: start_up_def prepend_def start_generators_unfold initial_state_def
                  example_defs)
  have p: "partition_generator_running st0 = [''a'']" "partition_generators st0 = [''b'']"
    "streams_in_progress st0 = [''a'']"
    unfolding s by (simp_all add: start_generator_def initial_state_def)
  from discovery_cap[OF a b, of "''a''"] p a show ?thesis by simp
qed

text \<open>The claim calls the cap configurable. No field of the source sets it: with four
  workers and two streams to read, start-up submits one generator and leaves the other
  waiting, and no source and catalog at all make start-up end with a number of running
  generators other than one.\<close>

theorem cap_not_configurable:
  "(\<exists>evs0 i st0.
      start_up example_source [''a'', ''b''] = (evs0, Inr (i, st0))
      \<and> partition_generator_running st0 = [''a''] \<and> partition_generators st0 = [''b''])
   \<and> \<not> (\<exists>src catalog evs0 i st0.
          start_up src catalog = (evs0, Inr (i, st0))
          \<and> length (partition_generator_running st0) \<noteq> 1)"
proof -
  have "\<exists>evs0 i st0.
      start_up example_source [''a'', ''b''] = (evs0, Inr (i, st0))
      \<and> partition_generator_running st0 = [''a''] \<and> partition_generators st0 = [''b'']"
    by (simp add: start_up_def prepend_def start_generators_unfold initial_state_def
          start_generator_def example_defs)
  then show ?thesis using start_up_running by blast
qed

text \<open>
  C6: let the Driver have popped the items \<open>pre\<close> and let \<open>n\<close> be a stream that is
  being read, with record counter \<open>c\<close>. Then \<open>c\<close> is the number of records of \<open>n\<close>
  among \<open>pre\<close>. A record of \<open>n\<close> popped next makes the Driver emit RUNNING exactly
  when \<open>c\<close> is zero, then yield the record as a message, call the cursor's
  \<^verbatim>\<open>observe\<close> and yield everything buffered in the message repository; it leaves the
  counter at \<open>c + 1\<close> and the repository empty. And whenever the Driver finishes the
  stream \<open>n\<close>, the count it logs is the number of records of \<open>n\<close> that it has
  processed.
\<close>

theorem record_handling:
  assumes "start_up src catalog = (evs0, Inr (instances, st0))"
    and "main_loop (should_log_slice_message src) instances st0 pre = (evs, Continue st)"
    and "map_of (record_counter st) n = Some c"
  shows "c = records_of n pre
       \<and> (\<exists>s. map_of instances n = Some s \<and>
            (\<forall>d. handle_record instances st (Record n d)
               = ((if c = 0
                   then [Log_info (Marking_stream_as_RUNNING n),
                         Yield (Stream_status n (namespace s) RUNNING)]
                   else [])
                  @ [Yield (Record_message n d), Cursor_observe n (Record n d)]
                  @ map Yield (message_repository st),
                  Inr (st\<lparr> record_counter := AList.update n (c + 1) (record_counter st),
                          total_records_counter := total_records_counter st + 1,
                          message_repository := [] \<rparr>))))
       \<and> (\<forall>p k m. partition_stream_name p = n
             \<and> Log_info (Read_records_from_stream k m)
                 \<in> set (fst (handle_partition_completed instances st p))
            \<longrightarrow> k = records_of n pre \<and> m = n)"
proof -
  have k: "keyed instances" and inv0: "driver_inv instances st0"
    using start_up_inv[OF assms(1)] by simp_all
  have inv: "driver_inv instances st" using main_loop_inv[OF inv0 assms(2)] .
  from main_loop_record_counter[OF k assms(2), of n] assms(3)
  obtain c0 where c0: "map_of (record_counter st0) n = Some c0" and c: "c = c0 + records_of n pre"
    by (cases "map_of (record_counter st0) n") auto
  from start_up_record_counter[OF assms(1) c0] c have 1: "c = records_of n pre" by simp
  from inv assms(3) have "eligible_name instances n"
    unfolding driver_inv_def by blast
  then obtain s where s: "map_of instances n = Some s"
    by (cases "map_of instances n") (simp_all add: eligible_name_def)
  with k have nm: "name s = n" by (simp add: keyed_def)
  have 2: "\<forall>d. handle_record instances st (Record n d)
               = ((if c = 0
                   then [Log_info (Marking_stream_as_RUNNING n),
                         Yield (Stream_status n (namespace s) RUNNING)]
                   else [])
                  @ [Yield (Record_message n d), Cursor_observe n (Record n d)]
                  @ map Yield (message_repository st),
                  Inr (st\<lparr> record_counter := AList.update n (c + 1) (record_counter st),
                          total_records_counter := total_records_counter st + 1,
                          message_repository := [] \<rparr>))"
    using s nm assms(3)
    by (simp add: handle_record_def Let_def stream_data_to_airbyte_message_def)
  have 3: "\<forall>p k m. partition_stream_name p = n
             \<and> Log_info (Read_records_from_stream k m)
                 \<in> set (fst (handle_partition_completed instances st p))
            \<longrightarrow> k = records_of n pre \<and> m = n"
    using assms(3) 1
    by (auto simp: handle_partition_completed_def Let_def update_timer_def
             split: option.splits if_splits)
  from 1 2 3 s show ?thesis by blast
qed

theorem record_handling_witness:
  "\<exists>evs0 i st0 evs st.
      start_up example_source [''a''] = (evs0, Inr (i, st0))
      \<and> main_loop True i st0
           [(Partition_item (Partition ''a'' ''p1''), False),
            (Record_item (Record ''a'' ''r1''), False)] = (evs, Continue st)
      \<and> map_of (record_counter st) ''a'' = Some 1
      \<and> (1::nat) = records_of ''a''
           [(Partition_item (Partition ''a'' ''p1''), False),
            (Record_item (Record ''a'' ''r1''), False)]"
proof -
  let ?q = "[(Partition_item (Partition ''a'' ''p1''), False),
            (Record_item (Record ''a'' ''r1''), False)]"
  obtain evs0 i st0 where a: "start_up example_source [''a''] = (evs0, Inr (i, st0))"
    by (simp add: run_defs example_defs)
  have i: "i = stream_instances_of [stream_a, stream_b, stream_u]"
    and s: "st0 = start_generator ''a'' [] (initial_state [stream_a])"
    using a by (simp_all add: start_up_def prepend_def start_generators_unfold initial_state_def
                  example_defs)
  obtain evs st where
    b: "main_loop (should_log_slice_message example_source) i st0 ?q = (evs, Continue st)"
    and c: "map_of (record_counter st) ''a'' = Some 1"
    unfolding i s by (simp add: run_defs example_defs Let_def)
  have t: "should_log_slice_message example_source = True" by (simp add: example_source_def)
  from record_handling[OF a b c] a b c t show ?thesis by auto
qed

text \<open>
  C7, the behaviour of the code when the only configured stream is unavailable. The skip
  is logged, no status is yielded for the stream and no generator is submitted; then the
  start-up loop pops from the empty list of generators and the run ends with
  \<^verbatim>\<open>IndexError\<close>, where the claim has the run not aborted. The handler of the
  generation sentinels tests \<^verbatim>\<open>if partition_generators:\<close> before it pops; the
  start-up loop does not.
\<close>

theorem only_stream_unavailable_raises:
  "read example_source [''u''] []
     = ([Log_info (Starting_syncing ''src''), Log_warning (Skipped_syncing_stream ''u'' ''down'')],
        Raised IndexError)"
  by (simp add: run_defs example_defs)

text \<open>
  C8, the behaviour of the code when the queue runs dry. The stream \<open>a\<close> is in progress
  and its partition is being read when \<^verbatim>\<open>queue.get\<close> times out. The run ends
  with \<^verbatim>\<open>Empty\<close> and nothing else: \<open>a\<close> is left with STARTED alone and the
  thread pool is not shut down, where the claim has the failure equivalent to an abort.
  An exception item popped at the same point goes through \<^verbatim>\<open>_stop_streams\<close>: it
  shuts the pool down and yields INCOMPLETE for \<open>a\<close>.
\<close>

theorem timeout_is_no_abort:
  "read example_source [''a''] [(Partition_item (Partition ''a'' ''p1''), False)]
     = ([Log_info (Starting_syncing ''src''), Timer_start_event ''a'',
         Submit_generate_partitions ''a'', Log_info (Marking_stream_as_STARTED ''a''),
         Log_info (Syncing_stream ''a''), Yield (Stream_status ''a'' None STARTED),
         Submit_process_partition (Partition ''a'' ''p1'')],
        Raised Queue_Empty)
   \<and> statuses ''a'' (fst (read example_source [''a'']
         [(Partition_item (Partition ''a'' ''p1''), False),
          (Exception_item (Exception ''boom''), False)])) = [STARTED, INCOMPLETE]
   \<and> Threadpool_shutdown \<in> set (fst (read example_source [''a'']
         [(Partition_item (Partition ''a'' ''p1''), False),
          (Exception_item (Exception ''boom''), False)]))"
  by (simp add: run_defs example_defs Let_def)

text \<open>
  C9: when the loop over the catalog ends with no stream to read from, the start-up loop
  pops from the empty list of generators: \<^verbatim>\<open>read\<close> raises \<^verbatim>\<open>IndexError\<close>,
  whatever the queue holds, having yielded no message.
\<close>

theorem read_without_eligible_stream:
  assumes "streams_as_abstract_streams (streams src) = Inr ss"
    and "select_streams (raise_exception_on_missing_stream src) (stream_instances_of ss) catalog
           = (evs, Inr [])"
  shows "read src catalog queue
           = (Log_info (Starting_syncing (source_name src)) # evs, Raised IndexError)
         \<and> (\<forall>m. Yield m \<notin> set evs)"
  using assms select_streams_no_yield[OF assms(2)]
  by (simp add: read_def start_up_def prepend_def start_generators_unfold initial_state_def)

theorem read_without_eligible_stream_witness:
  "read example_source [''u''] [(Record_item (Record ''u'' ''x''), True)]
     = ([Log_info (Starting_syncing ''src''), Log_warning (Skipped_syncing_stream ''u'' ''down'')],
        Raised IndexError)"
  using read_without_eligible_stream[of example_source "[stream_a, stream_b, stream_u]" "[''u'']"
     "[Log_warning (Skipped_syncing_stream ''u'' ''down'')]"
     "[(Record_item (Record ''u'' ''x''), True)]"]
  by (simp add: example_defs)

text \<open>
  C10: in every run, a STARTED status message carries the namespace \<^verbatim>\<open>None\<close>, and a
  RUNNING, COMPLETE or INCOMPLETE status message carries the namespace of
  \<^verbatim>\<open>as_airbyte_stream()\<close> of the stream instance of that name.
\<close>

theorem status_namespaces:
  assumes "Yield (Stream_status n ns s) \<in> set (fst (read src catalog queue))"
  shows "(s = STARTED \<longrightarrow> ns = None) \<and>
         (s \<noteq> STARTED \<longrightarrow>
            (\<exists>ss str. streams_as_abstract_streams (streams src) = Inr ss
               \<and> map_of (stream_instances_of ss) n = Some str \<and> ns = namespace str))"
proof -
  from read_namespace[of src catalog queue] assms
  have "namespace_as_built
          (case streams_as_abstract_streams (streams src) of
             Inl e \<Rightarrow> [] | Inr ss \<Rightarrow> stream_instances_of ss)
          (Yield (Stream_status n ns s))"
    by (auto simp: list_all_iff)
  then show ?thesis
    by (auto split: if_splits sum.splits option.splits)
qed

theorem status_namespaces_witness:
  "Yield (Stream_status ''a'' (Some ''ns'') RUNNING)
     \<in> set (fst (read example_source [''a'']
                 [(Partition_item (Partition ''a'' ''p1''), False),
                  (Record_item (Record ''a'' ''r1''), False)]))
   \<and> (\<exists>ss str. streams_as_abstract_streams (streams example_source) = Inr ss
         \<and> map_of (stream_instances_of ss) ''a'' = Some str \<and> Some ''ns'' = namespace str)"
proof -
  have m: "Yield (Stream_status ''a'' (Some ''ns'') RUNNING)
     \<in> set (fst (read example_source [''a'']
                 [(Partition_item (Partition ''a'' ''p1''), False),
                  (Record_item (Record ''a'' ''r1''), False)]))"
    by (simp add: run_defs example_defs Let_def)
  from status_namespaces[OF m] m show ?thesis by simp
qed

end
